theory Spec2Isabelle
  imports Complex_Main "HOL-Library.Multiset"
begin

chapter \<open>The program\<close>

section \<open>Data model\<close>

text \<open>
  A point is a pair of coordinates. A route is the ordered list of the customer indices
  it visits (zero-based indices into the customer list, no depot entry). Python floats
  are modelled as exact reals, Python ints as \<open>int\<close>; a customer index is a \<open>nat\<close>, so
  Python's negative indices are outside the model.

  The source has no \<open>raise\<close> of its own; what can fail is a list lookup. Lookups are
  written with \<open>!\<close>, and they are in range under the input contract \<open>instance_ok\<close> below
  (the demand list is as long as the customer list). The one lookup that depends on an
  argument of a call, a route of the improver naming a customer outside the instance,
  is modelled as the IndexError it raises.
\<close>

type_synonym point = "real \<times> real"

type_synonym route = "nat list"

datatype py_error = IndexError

text \<open>
  The three solver classes (\<open>TwoOptVRP\<close>, \<open>NearestNeighborVRP\<close>, \<open>SavingsAlgorithmVRP\<close>)
  repeat the same attributes; the records extend one another so that each attribute is
  declared once under the name the source gives it.
\<close>

record TwoOptVRP =
  depot :: point
  customers :: "point list"
  demands :: "int list"
  vehicle_capacity :: int
  num_customers :: nat
  distance_matrix :: "real list list"

record NearestNeighborVRP = TwoOptVRP +
  num_vehicles :: int

record SavingsAlgorithmVRP = NearestNeighborVRP +
  savings_list :: "(nat \<times> nat \<times> real) list"

text \<open>
  The dictionaries the solvers return. The constructors report the unvisited customers,
  the improver the number of passes it ran.
\<close>

record solution_base =
  routes :: "route list"
  total_distance :: real
  num_vehicles_used :: nat
  feasible :: bool

record solution = solution_base +
  unvisited_customers :: "nat list"

record improvement = solution_base +
  improvement_iterations :: int

section \<open>Distance model and route measures\<close>

definition euclidean_distance :: "point \<Rightarrow> point \<Rightarrow> real" where
  "euclidean_distance point1 point2 =
     sqrt ((fst point1 - fst point2)\<^sup>2 + (snd point1 - snd point2)\<^sup>2)"

text \<open>\<open>_compute_distance_matrix\<close>: row and column 0 are the depot, 1..N the customers.\<close>

definition compute_distance_matrix :: "point \<Rightarrow> point list \<Rightarrow> real list list" where
  "compute_distance_matrix dep custs =
     (let points = dep # custs; n = length points
      in map (\<lambda>i. map (\<lambda>j. if i \<noteq> j then euclidean_distance (points ! i) (points ! j) else 0)
                  [0..<n]) [0..<n])"

text \<open>
  \<open>_calculate_route_distance\<close> (the same code in \<open>TwoOptVRP\<close> and \<open>SavingsAlgorithmVRP\<close>):
  depot to the first customer, the legs between customers, the last customer to the depot.
\<close>

definition calculate_route_distance :: "'a TwoOptVRP_scheme \<Rightarrow> route \<Rightarrow> real" where
  "calculate_route_distance s route =
     (if route = [] then 0
      else distance_matrix s ! 0 ! (route ! 0 + 1)
         + (\<Sum>i\<leftarrow>[0..<length route - 1]. distance_matrix s ! (route ! i + 1) ! (route ! (i + 1) + 1))
         + distance_matrix s ! (last route + 1) ! 0)"

definition calculate_total_distance :: "'a TwoOptVRP_scheme \<Rightarrow> route list \<Rightarrow> real" where
  "calculate_total_distance s rs = (\<Sum>route\<leftarrow>rs. calculate_route_distance s route)"

definition route_load :: "'a TwoOptVRP_scheme \<Rightarrow> route \<Rightarrow> int" where
  "route_load s route = (\<Sum>customer\<leftarrow>route. demands s ! customer)"

definition is_route_feasible :: "'a TwoOptVRP_scheme \<Rightarrow> route \<Rightarrow> bool" where
  "is_route_feasible s route \<longleftrightarrow> route_load s route \<le> vehicle_capacity s"

definition check_feasibility :: "'a TwoOptVRP_scheme \<Rightarrow> route list \<Rightarrow> bool" where
  "check_feasibility s rs \<longleftrightarrow> list_all (is_route_feasible s) rs"

text \<open>\<open>TwoOptVRP.__init__\<close>.\<close>

definition TwoOptVRP_init :: "point \<Rightarrow> point list \<Rightarrow> int list \<Rightarrow> int \<Rightarrow> TwoOptVRP" where
  "TwoOptVRP_init dep custs dems cap =
     \<lparr>depot = dep, customers = custs, demands = dems, vehicle_capacity = cap,
      num_customers = length custs, distance_matrix = compute_distance_matrix dep custs\<rparr>"

section \<open>Nearest-neighbour constructor\<close>

text \<open>\<open>NearestNeighborVRP.__init__\<close>.\<close>

definition NearestNeighborVRP_init ::
  "point \<Rightarrow> point list \<Rightarrow> int list \<Rightarrow> int \<Rightarrow> int \<Rightarrow> NearestNeighborVRP" where
  "NearestNeighborVRP_init dep custs dems cap nv =
     \<lparr>depot = dep, customers = custs, demands = dems, vehicle_capacity = cap,
      num_customers = length custs, distance_matrix = compute_distance_matrix dep custs,
      num_vehicles = nv\<rparr>"

text \<open>
  The set \<open>unvisited\<close> is modelled by the list of its elements in iteration order, without
  repetition. CPython iterates a set built from \<open>range(N)\<close> in ascending order and
  removing an element keeps the order of the others, so the list starts as \<open>[0..<N]\<close>
  and \<open>unvisited.remove(c)\<close> is \<open>removeAll c\<close>. The order decides ties between
  customers at the same distance; nothing proved below depends on it.

  The body of the scan \<open>for customer_idx in unvisited\<close>, on the pair
  \<open>(nearest_customer, nearest_distance)\<close>; \<open>None\<close> stands for the initial
  \<open>(None, float('inf'))\<close>, which every distance is below.
\<close>

definition nearest_step ::
  "'a TwoOptVRP_scheme \<Rightarrow> int \<Rightarrow> nat \<Rightarrow> (nat \<times> real) option \<Rightarrow> nat \<Rightarrow> (nat \<times> real) option" where
  "nearest_step s current_load current_position nearest customer_idx =
     (if current_load + demands s ! customer_idx \<le> vehicle_capacity s
      then let distance = distance_matrix s ! current_position ! (customer_idx + 1)
           in (case nearest of
                 None \<Rightarrow> Some (customer_idx, distance)
               | Some (nearest_customer, nearest_distance) \<Rightarrow>
                   if distance < nearest_distance then Some (customer_idx, distance) else nearest)
      else nearest)"

definition find_nearest ::
  "'a TwoOptVRP_scheme \<Rightarrow> nat list \<Rightarrow> int \<Rightarrow> nat \<Rightarrow> (nat \<times> real) option" where
  "find_nearest s unvisited current_load current_position =
     foldl (nearest_step s current_load current_position) None unvisited"

text \<open>
  The \<open>while unvisited\<close> loop of \<open>_construct_route\<close>, on the set and the four local
  variables; it returns them as they are when the loop ends.
\<close>

function construct_loop ::
  "'a TwoOptVRP_scheme \<Rightarrow> nat list \<Rightarrow> route \<Rightarrow> int \<Rightarrow> nat \<Rightarrow> real
     \<Rightarrow> nat list \<times> route \<times> int \<times> nat \<times> real" where
  "construct_loop s unvisited route current_load current_position route_distance =
     (if unvisited = [] then (unvisited, route, current_load, current_position, route_distance)
      else case find_nearest s unvisited current_load current_position of
             None \<Rightarrow> (unvisited, route, current_load, current_position, route_distance)
           | Some (nearest_customer, nearest_distance) \<Rightarrow>
               construct_loop s (removeAll nearest_customer unvisited) (route @ [nearest_customer])
                 (current_load + demands s ! nearest_customer) (nearest_customer + 1)
                 (route_distance + nearest_distance))"
  by pat_completeness auto

text \<open>
  \<open>_construct_route\<close>: the route, its distance with the way back to the depot, and the
  set as the call leaves it (the caller's set is mutated).
\<close>

definition construct_route ::
  "'a TwoOptVRP_scheme \<Rightarrow> nat list \<Rightarrow> route \<times> real \<times> nat list" where
  "construct_route s unvisited =
     (if unvisited = [] then ([], 0, unvisited)
      else case construct_loop s unvisited [] 0 0 0 of
             (unvisited', route, current_load, current_position, route_distance) \<Rightarrow>
               (route,
                if route \<noteq> [] then route_distance + distance_matrix s ! current_position ! 0
                else route_distance,
                unvisited'))"

text \<open>The \<open>while\<close> loop of \<open>solve\<close>, on the set, the routes, the distance and the count.\<close>

function nearest_neighbor_loop ::
  "'a NearestNeighborVRP_scheme \<Rightarrow> nat list \<Rightarrow> route list \<Rightarrow> real \<Rightarrow> int
     \<Rightarrow> nat list \<times> route list \<times> real" where
  "nearest_neighbor_loop s unvisited rts total_dist vehicle_count =
     (if unvisited \<noteq> [] \<and> vehicle_count < num_vehicles s
      then case construct_route s unvisited of
             (route, route_distance, unvisited') \<Rightarrow>
               if route \<noteq> []
               then nearest_neighbor_loop s unvisited' (rts @ [route]) (total_dist + route_distance)
                      (vehicle_count + 1)
               else (unvisited', rts, total_dist)
      else (unvisited, rts, total_dist))"
  by pat_completeness auto

termination
  by (relation "measure (\<lambda>(s, unvisited, rts, total_dist, vehicle_count). nat (num_vehicles s - vehicle_count))")
     auto

definition nearest_neighbor_solve :: "'a NearestNeighborVRP_scheme \<Rightarrow> solution" where
  "nearest_neighbor_solve s =
     (case nearest_neighbor_loop s [0..<num_customers s] [] 0 0 of
        (unvisited, rts, total_dist) \<Rightarrow>
          \<lparr>routes = rts, total_distance = total_dist, num_vehicles_used = length rts,
           feasible = (length unvisited = 0), unvisited_customers = unvisited\<rparr>)"

section \<open>Savings constructor\<close>

text \<open>
  \<open>_calculate_savings\<close>: one entry \<open>(i, j, savings_value)\<close> for each pair \<open>i < j\<close>, in loop
  order, then \<open>savings.sort(key=itemgetter(2), reverse=True)\<close>. Python's sort is stable,
  also under \<open>reverse=True\<close>; so is \<open>sort_key\<close> on the negated savings.
\<close>

definition savings_value :: "'a TwoOptVRP_scheme \<Rightarrow> nat \<Rightarrow> nat \<Rightarrow> real" where
  "savings_value s i j =
     (let depot_to_i = distance_matrix s ! 0 ! (i + 1);
          depot_to_j = distance_matrix s ! 0 ! (j + 1);
          i_to_j = distance_matrix s ! (i + 1) ! (j + 1)
      in depot_to_i + depot_to_j - i_to_j)"

definition savings_pairs :: "'a TwoOptVRP_scheme \<Rightarrow> (nat \<times> nat \<times> real) list" where
  "savings_pairs s =
     concat (map (\<lambda>i. map (\<lambda>j. (i, j, savings_value s i j)) [i + 1..<num_customers s])
               [0..<num_customers s])"

definition calculate_savings :: "'a TwoOptVRP_scheme \<Rightarrow> (nat \<times> nat \<times> real) list" where
  "calculate_savings s = sort_key (\<lambda>e. - snd (snd e)) (savings_pairs s)"

text \<open>\<open>SavingsAlgorithmVRP.__init__\<close>: the savings list is computed from the matrix.\<close>

definition SavingsAlgorithmVRP_init ::
  "point \<Rightarrow> point list \<Rightarrow> int list \<Rightarrow> int \<Rightarrow> int \<Rightarrow> SavingsAlgorithmVRP" where
  "SavingsAlgorithmVRP_init dep custs dems cap nv =
     \<lparr>depot = dep, customers = custs, demands = dems, vehicle_capacity = cap,
      num_customers = length custs, distance_matrix = compute_distance_matrix dep custs,
      num_vehicles = nv,
      savings_list = calculate_savings (TwoOptVRP_init dep custs dems cap)\<rparr>"

text \<open>
  The three structures \<open>solve\<close> updates while merging: the routes by route id (the
  source's local \<open>routes\<close>), their loads, and the dictionary from customer to route id.
\<close>

record merge_state =
  sv_routes :: "route list"
  route_loads :: "int list"
  customer_to_route :: "nat \<rightharpoonup> nat"

definition initial_merge_state :: "'a TwoOptVRP_scheme \<Rightarrow> merge_state" where
  "initial_merge_state s =
     \<lparr>sv_routes = map (\<lambda>i. [i]) [0..<num_customers s],
      route_loads = map (\<lambda>i. demands s ! i) [0..<num_customers s],
      customer_to_route = map_of (map (\<lambda>i. (i, i)) [0..<num_customers s])\<rparr>"

definition can_merge_routes ::
  "'a TwoOptVRP_scheme \<Rightarrow> route \<Rightarrow> route \<Rightarrow> int \<Rightarrow> int \<Rightarrow> nat \<Rightarrow> nat \<Rightarrow> bool" where
  "can_merge_routes s route1 route2 load1 load2 customer_i customer_j =
     (if load1 + load2 > vehicle_capacity s then False
      else let i_at_end = (route1 ! 0 = customer_i \<or> last route1 = customer_i);
               j_at_end = (route2 ! 0 = customer_j \<or> last route2 = customer_j)
           in i_at_end \<and> j_at_end)"

definition merge_routes ::
  "'a TwoOptVRP_scheme \<Rightarrow> route \<Rightarrow> route \<Rightarrow> nat \<Rightarrow> nat \<Rightarrow> route \<times> int" where
  "merge_routes s route1 route2 customer_i customer_j =
     (let i_pos = (if route1 ! 0 = customer_i then 0 else length route1 - 1);
          j_pos = (if route2 ! 0 = customer_j then 0 else length route2 - 1);
          merged_route =
            (if i_pos = length route1 - 1 \<and> j_pos = 0 then route1 @ route2
             else if i_pos = 0 \<and> j_pos = length route2 - 1 then route2 @ route1
             else if i_pos = length route1 - 1 \<and> j_pos = length route2 - 1 then route1 @ rev route2
             else if i_pos = 0 \<and> j_pos = 0 then rev route1 @ route2
             else []);
          merged_load = route_load s merged_route
      in (merged_route, merged_load))"

text \<open>
  The body of the loop over the savings list, after the test that ends the loop: the
  two route ids, the skip when they are equal, the eligibility test and the merge.
  The dictionary has every customer as a key from the start, and the route a key names
  holds that customer (the invariant \<open>merge_inv\<close> below), so the dictionary lookup finds
  its key and \<open>route1[0]\<close> is never taken of an empty route.
\<close>

definition process_pair :: "'a TwoOptVRP_scheme \<Rightarrow> merge_state \<Rightarrow> nat \<Rightarrow> nat \<Rightarrow> merge_state" where
  "process_pair s st customer_i customer_j =
     (let route_i = the (customer_to_route st customer_i);
          route_j = the (customer_to_route st customer_j)
      in if route_i = route_j then st
         else if can_merge_routes s (sv_routes st ! route_i) (sv_routes st ! route_j)
                   (route_loads st ! route_i) (route_loads st ! route_j) customer_i customer_j
              then let merged = merge_routes s (sv_routes st ! route_i) (sv_routes st ! route_j)
                                  customer_i customer_j
                   in \<lparr>sv_routes = (sv_routes st)[route_i := fst merged, route_j := []],
                       route_loads = (route_loads st)[route_i := snd merged, route_j := 0],
                       customer_to_route =
                         foldl (\<lambda>m customer. m(customer \<mapsto> route_i)) (customer_to_route st)
                           (sv_routes st ! route_j)\<rparr>
              else st)"

text \<open>The loop over the savings list, with its \<open>break\<close> at the first savings \<open>\<le> 0\<close>.\<close>

fun merge_loop ::
  "'a TwoOptVRP_scheme \<Rightarrow> merge_state \<Rightarrow> (nat \<times> nat \<times> real) list \<Rightarrow> merge_state" where
  "merge_loop s st [] = st"
| "merge_loop s st ((customer_i, customer_j, sv) # rest) =
     (if sv \<le> 0 then st else merge_loop s (process_pair s st customer_i customer_j) rest)"

text \<open>The slice \<open>xs[:k]\<close> for a Python int \<open>k\<close>: a negative \<open>k\<close> counts from the end.\<close>

definition py_prefix :: "int \<Rightarrow> 'a list \<Rightarrow> 'a list" where
  "py_prefix k xs = (if 0 \<le> k then take (nat k) xs else take (length xs - nat (- k)) xs)"

text \<open>
  The vehicle limit: when there are more routes than vehicles, the routes are sorted by
  distance (a stable sort) and the first \<open>num_vehicles\<close> are kept.
\<close>

definition apply_vehicle_limit :: "'a NearestNeighborVRP_scheme \<Rightarrow> route list \<Rightarrow> route list" where
  "apply_vehicle_limit s final_routes =
     (if int (length final_routes) > num_vehicles s
      then let route_info = map (\<lambda>route. (route, calculate_route_distance s route)) final_routes
           in map fst (py_prefix (num_vehicles s) (sort_key snd route_info))
      else final_routes)"

definition savings_solve :: "'a SavingsAlgorithmVRP_scheme \<Rightarrow> solution" where
  "savings_solve s =
     (let st = merge_loop s (initial_merge_state s) (savings_list s);
          final_routes = apply_vehicle_limit s (filter (\<lambda>route. route \<noteq> []) (sv_routes st));
          served_customers = set (concat final_routes);
          unvisited = filter (\<lambda>i. i \<notin> served_customers) [0..<num_customers s]
      in \<lparr>routes = final_routes,
          total_distance = calculate_total_distance s final_routes,
          num_vehicles_used = length final_routes,
          feasible = (length unvisited = 0),
          unvisited_customers = unvisited\<rparr>)"

section \<open>Local search improver: intra-route 2-opt\<close>

text \<open>
  Every lookup of the improver indexes the distance matrix at \<open>customer + 1\<close> and the
  demand list at \<open>customer\<close>. The first statement of both public operations
  (\<open>_calculate_total_distance\<close>) reads the matrix at every customer of every route, so a
  route naming a customer outside the matrix raises IndexError there, before any move;
  and when no route does, every later lookup is of a customer of the instance.
\<close>

definition routes_in_range :: "'a TwoOptVRP_scheme \<Rightarrow> route list \<Rightarrow> bool" where
  "routes_in_range s rs \<longleftrightarrow> list_all (list_all (\<lambda>c. c + 1 < length (distance_matrix s))) rs"

text \<open>
  The slice assignment \<open>new_route[i+1:j+1] = reversed(new_route[i+1:j+1])\<close>.
\<close>

definition reverse_segment :: "route \<Rightarrow> nat \<Rightarrow> nat \<Rightarrow> route" where
  "reverse_segment route i j =
     take (i + 1) route @ rev (take (j - i) (drop (i + 1) route)) @ drop (j + 1) route"

text \<open>The pairs of the two nested \<open>for\<close> loops, in the order the loops visit them.\<close>

definition two_opt_pairs :: "nat \<Rightarrow> (nat \<times> nat) list" where
  "two_opt_pairs n = concat (map (\<lambda>i. map (\<lambda>j. (i, j)) [i + 2..<n]) [0..<n - 1])"

text \<open>
  The body of the inner loop of \<open>_improve_route_2opt\<close>, on the pair
  \<open>(best_route, best_improvement)\<close>. \<open>best_distance\<close> is set once, from the route given,
  and never updated.
\<close>

definition two_opt_step ::
  "'a TwoOptVRP_scheme \<Rightarrow> route \<Rightarrow> real \<Rightarrow> route \<times> real \<Rightarrow> nat \<times> nat \<Rightarrow> route \<times> real" where
  "two_opt_step s route best_distance best ij =
     (let new_route = reverse_segment route (fst ij) (snd ij)
      in if \<not> is_route_feasible s new_route then best
         else let new_distance = calculate_route_distance s new_route;
                  improvement = best_distance - new_distance
              in if improvement > snd best then (new_route, improvement) else best)"

definition improve_route_2opt :: "'a TwoOptVRP_scheme \<Rightarrow> route \<Rightarrow> route \<times> real" where
  "improve_route_2opt s route =
     foldl (two_opt_step s route (calculate_route_distance s route)) (route, 0)
       (two_opt_pairs (length route))"

text \<open>
  The \<open>for route_idx, route in enumerate(current_routes)\<close> loop of \<open>improve_solution\<close>:
  routes shorter than 3 are skipped, and the first route whose best move improves by more
  than 0.001 ends the scan (\<open>break\<close>). The result is the index, the improved route and
  the improvement, or None when the scan ends without one.
\<close>

fun first_improvement ::
  "'a TwoOptVRP_scheme \<Rightarrow> (nat \<times> route) list \<Rightarrow> (nat \<times> route \<times> real) option" where
  "first_improvement s [] = None"
| "first_improvement s ((route_idx, route) # rest) =
     (if length route < 3 then first_improvement s rest
      else if snd (improve_route_2opt s route) > 0.001
           then Some (route_idx, improve_route_2opt s route)
           else first_improvement s rest)"

text \<open>The local variables of the two improvement loops.\<close>

record loop_state =
  current_routes :: "route list"
  current_distance :: real
  improvement_found :: bool
  iterations_without_improvement :: int
  total_iterations :: int

text \<open>One pass: the body of the \<open>while\<close> loop of \<open>improve_solution\<close>.\<close>

definition improve_pass :: "'a TwoOptVRP_scheme \<Rightarrow> loop_state \<Rightarrow> loop_state" where
  "improve_pass s st =
     (case first_improvement s (enumerate 0 (current_routes st)) of
        Some (route_idx, improved_route, improvement) \<Rightarrow>
          st\<lparr>current_routes := (current_routes st)[route_idx := improved_route],
             current_distance := current_distance st - improvement,
             improvement_found := True,
             iterations_without_improvement := 0,
             total_iterations := total_iterations st + 1\<rparr>
      | None \<Rightarrow>
          st\<lparr>improvement_found := False,
             iterations_without_improvement := iterations_without_improvement st + 1,
             total_iterations := total_iterations st + 1\<rparr>)"

text \<open>
  The \<open>while\<close> loop of \<open>improve_solution\<close>. Its termination is proved below, from the
  strict decrease of the total distance over a finite set of rearrangements.
\<close>

function improve_loop :: "'a TwoOptVRP_scheme \<Rightarrow> int \<Rightarrow> loop_state \<Rightarrow> loop_state" where
  "improve_loop s max_iterations st =
     (if improvement_found st \<and> iterations_without_improvement st < max_iterations
      then improve_loop s max_iterations (improve_pass s st)
      else st)"
  by pat_completeness auto

section \<open>Local search improver: inter-route 2-opt\<close>

text \<open>
  The candidates of the four nested \<open>for\<close> loops of \<open>inter_route_2opt\<close>, in the order the
  loops visit them: route pairs \<open>i < j\<close>, skipped when either route is empty, then every
  position \<open>ci\<close> of route \<open>i\<close> with every position \<open>cj\<close> of route \<open>j\<close>. The routes change
  only when a swap is accepted, and that leaves all four loops, so one pass scans the
  candidates of the routes it started with.
\<close>

definition swap_candidates :: "route list \<Rightarrow> (nat \<times> nat \<times> nat \<times> nat) list" where
  "swap_candidates rs =
     [(i, j, ci, cj). i \<leftarrow> [0..<length rs], j \<leftarrow> [i + 1..<length rs],
                      rs ! i \<noteq> [] \<and> rs ! j \<noteq> [],
                      ci \<leftarrow> [0..<length (rs ! i)], cj \<leftarrow> [0..<length (rs ! j)]]"

text \<open>
  \<open>new_route_i[ci], new_route_j[cj] = new_route_j[cj], new_route_i[ci]\<close> on the two copies.
\<close>

definition swap_customers :: "route \<Rightarrow> route \<Rightarrow> nat \<Rightarrow> nat \<Rightarrow> route \<times> route" where
  "swap_customers route_i route_j ci cj = (route_i[ci := route_j ! cj], route_j[cj := route_i ! ci])"

definition swap_old_distance :: "'a TwoOptVRP_scheme \<Rightarrow> route list \<Rightarrow> nat \<times> nat \<times> nat \<times> nat \<Rightarrow> real" where
  "swap_old_distance s rs c =
     (case c of (i, j, ci, cj) \<Rightarrow>
        calculate_route_distance s (rs ! i) + calculate_route_distance s (rs ! j))"

definition swap_new_distance :: "'a TwoOptVRP_scheme \<Rightarrow> route list \<Rightarrow> nat \<times> nat \<times> nat \<times> nat \<Rightarrow> real" where
  "swap_new_distance s rs c =
     (case c of (i, j, ci, cj) \<Rightarrow>
        calculate_route_distance s (fst (swap_customers (rs ! i) (rs ! j) ci cj))
        + calculate_route_distance s (snd (swap_customers (rs ! i) (rs ! j) ci cj)))"

text \<open>The two tests a swap has to pass: both new routes feasible, and the threshold.\<close>

definition swap_accepted :: "'a TwoOptVRP_scheme \<Rightarrow> route list \<Rightarrow> nat \<times> nat \<times> nat \<times> nat \<Rightarrow> bool" where
  "swap_accepted s rs c =
     (case c of (i, j, ci, cj) \<Rightarrow>
        is_route_feasible s (fst (swap_customers (rs ! i) (rs ! j) ci cj))
        \<and> is_route_feasible s (snd (swap_customers (rs ! i) (rs ! j) ci cj))
        \<and> swap_new_distance s rs c < swap_old_distance s rs c - 0.001)"

definition first_swap :: "'a TwoOptVRP_scheme \<Rightarrow> route list \<Rightarrow> (nat \<times> nat \<times> nat \<times> nat) option" where
  "first_swap s rs = find (swap_accepted s rs) (swap_candidates rs)"

definition apply_swap :: "route list \<Rightarrow> nat \<times> nat \<times> nat \<times> nat \<Rightarrow> route list" where
  "apply_swap rs c =
     (case c of (i, j, ci, cj) \<Rightarrow>
        rs[i := fst (swap_customers (rs ! i) (rs ! j) ci cj),
           j := snd (swap_customers (rs ! i) (rs ! j) ci cj)])"

text \<open>One pass: the body of the \<open>while\<close> loop of \<open>inter_route_2opt\<close>.\<close>

definition inter_pass :: "'a TwoOptVRP_scheme \<Rightarrow> loop_state \<Rightarrow> loop_state" where
  "inter_pass s st =
     (case first_swap s (current_routes st) of
        Some c \<Rightarrow>
          (let improvement = swap_old_distance s (current_routes st) c
                             - swap_new_distance s (current_routes st) c
           in st\<lparr>current_routes := apply_swap (current_routes st) c,
                 current_distance := current_distance st - improvement,
                 improvement_found := True,
                 iterations_without_improvement := 0,
                 total_iterations := total_iterations st + 1\<rparr>)
      | None \<Rightarrow>
          st\<lparr>improvement_found := False,
             iterations_without_improvement := iterations_without_improvement st + 1,
             total_iterations := total_iterations st + 1\<rparr>)"

function inter_loop :: "'a TwoOptVRP_scheme \<Rightarrow> int \<Rightarrow> loop_state \<Rightarrow> loop_state" where
  "inter_loop s max_iterations st =
     (if improvement_found st \<and> iterations_without_improvement st < max_iterations
      then inter_loop s max_iterations (inter_pass s st)
      else st)"
  by pat_completeness auto

section \<open>The two public operations of the improver\<close>

text \<open>
  \<open>copy.deepcopy\<close>, the initial distance and the three loop variables; then the
  dictionary built from the loop's final state.
\<close>

definition initial_state :: "'a TwoOptVRP_scheme \<Rightarrow> route list \<Rightarrow> loop_state" where
  "initial_state s rs =
     \<lparr>current_routes = rs, current_distance = calculate_total_distance s rs,
      improvement_found = True, iterations_without_improvement = 0, total_iterations = 0\<rparr>"

definition result_of :: "'a TwoOptVRP_scheme \<Rightarrow> loop_state \<Rightarrow> improvement" where
  "result_of s st =
     \<lparr>routes = current_routes st, total_distance = current_distance st,
      num_vehicles_used = length (current_routes st),
      feasible = check_feasibility s (current_routes st),
      improvement_iterations = total_iterations st\<rparr>"

definition improve_solution ::
  "'a TwoOptVRP_scheme \<Rightarrow> route list \<Rightarrow> int \<Rightarrow> py_error + improvement" where
  "improve_solution s initial_routes max_iterations =
     (if \<not> routes_in_range s initial_routes then Inl IndexError
      else Inr (result_of s (improve_loop s max_iterations (initial_state s initial_routes))))"

definition inter_route_2opt ::
  "'a TwoOptVRP_scheme \<Rightarrow> route list \<Rightarrow> int \<Rightarrow> py_error + improvement" where
  "inter_route_2opt s rs max_iterations =
     (if \<not> routes_in_range s rs then Inl IndexError
      else Inr (result_of s (inter_loop s max_iterations (initial_state s rs))))"

section \<open>The improver on a store of list objects\<close>

text \<open>
  The functions above pass routes by value. Python passes references: the caller's
  \<open>initial_routes\<close> is a list object holding references to route objects, and a list can
  be changed in place through any reference to it. To say what a call does to the
  caller's objects, the improver is modelled a second time on an explicit store. An
  address is an index into the store, and a new object is appended to it. A route object
  holds customer indices (immutable ints), the outer list holds addresses of route objects.
\<close>

datatype py_object = IntList "nat list" | RefList "nat list"

type_synonym store = "py_object list"

definition ints_at :: "store \<Rightarrow> nat \<Rightarrow> nat list" where
  "ints_at h a = (case h ! a of IntList xs \<Rightarrow> xs | RefList rs \<Rightarrow> [])"

definition refs_at :: "store \<Rightarrow> nat \<Rightarrow> nat list" where
  "refs_at h a = (case h ! a of RefList rs \<Rightarrow> rs | IntList xs \<Rightarrow> [])"

text \<open>The route list an address of an outer list stands for.\<close>

definition deref_routes :: "store \<Rightarrow> nat \<Rightarrow> route list" where
  "deref_routes h a = map (ints_at h) (refs_at h a)"

text \<open>\<open>xs.copy()\<close>: a new object with the same items.\<close>

definition list_copy :: "store \<Rightarrow> nat \<Rightarrow> store \<times> nat" where
  "list_copy h a = (h @ [h ! a], length h)"

text \<open>\<open>xs[i] = v\<close> on a route object and on the outer list; both change the object in place.\<close>

definition int_set_item :: "store \<Rightarrow> nat \<Rightarrow> nat \<Rightarrow> nat \<Rightarrow> store" where
  "int_set_item h a i v = h[a := IntList ((ints_at h a)[i := v])]"

definition ref_set_item :: "store \<Rightarrow> nat \<Rightarrow> nat \<Rightarrow> nat \<Rightarrow> store" where
  "ref_set_item h a i r = h[a := RefList ((refs_at h a)[i := r])]"

text \<open>\<open>xs[i+1:j+1] = reversed(xs[i+1:j+1])\<close>, in place.\<close>

definition reverse_slice :: "store \<Rightarrow> nat \<Rightarrow> nat \<Rightarrow> nat \<Rightarrow> store" where
  "reverse_slice h a i j = h[a := IntList (reverse_segment (ints_at h a) i j)]"

text \<open>
  \<open>copy.deepcopy\<close> of a list of lists of ints: the new outer list is made first and
  entered in the memo, then each item is copied unless the memo already has a copy of
  that object (so an object listed twice is copied once); ints are not copied.
\<close>

fun deepcopy_items ::
  "store \<Rightarrow> (nat \<times> nat) list \<Rightarrow> nat list \<Rightarrow> store \<times> (nat \<times> nat) list \<times> nat list" where
  "deepcopy_items h memo [] = (h, memo, [])"
| "deepcopy_items h memo (r # rs) =
     (case map_of memo r of
        Some y \<Rightarrow>
          (case deepcopy_items h memo rs of (h', memo', ys) \<Rightarrow> (h', memo', y # ys))
      | None \<Rightarrow>
          (case deepcopy_items (h @ [IntList (ints_at h r)]) ((r, length h) # memo) rs of
             (h', memo', ys) \<Rightarrow> (h', memo', length h # ys)))"

definition deepcopy :: "store \<Rightarrow> nat \<Rightarrow> store \<times> nat" where
  "deepcopy h a =
     (case deepcopy_items (h @ [RefList []]) [(a, length h)] (refs_at h a) of
        (h', memo, ys) \<Rightarrow> (h'[length h := RefList ys], length h))"

text \<open>
  \<open>_improve_route_2opt\<close> on the store: \<open>best_route\<close> and every \<open>new_route\<close> are copies,
  and the slice assignment changes the copy. The state of the loops is the store, the
  address \<open>best_route\<close> is bound to, and \<open>best_improvement\<close>.
\<close>

definition two_opt_step_h ::
  "'a TwoOptVRP_scheme \<Rightarrow> nat \<Rightarrow> real \<Rightarrow> store \<times> nat \<times> real \<Rightarrow> nat \<times> nat \<Rightarrow> store \<times> nat \<times> real" where
  "two_opt_step_h s route best_distance best ij =
     (case best of (h, best_route, best_improvement) \<Rightarrow>
        (case list_copy h route of (h1, new_route) \<Rightarrow>
           (let h2 = reverse_slice h1 new_route (fst ij) (snd ij)
            in if \<not> is_route_feasible s (ints_at h2 new_route) then (h2, best_route, best_improvement)
               else let new_distance = calculate_route_distance s (ints_at h2 new_route);
                        improvement = best_distance - new_distance
                    in if improvement > best_improvement then (h2, new_route, improvement)
                       else (h2, best_route, best_improvement))))"

definition improve_route_2opt_h :: "'a TwoOptVRP_scheme \<Rightarrow> store \<Rightarrow> nat \<Rightarrow> store \<times> nat \<times> real" where
  "improve_route_2opt_h s h route =
     (case list_copy h route of (h1, best_route) \<Rightarrow>
        foldl (two_opt_step_h s route (calculate_route_distance s (ints_at h1 route)))
          (h1, best_route, 0) (two_opt_pairs (length (ints_at h1 route))))"

text \<open>The scan of one pass of \<open>improve_solution\<close>, over the addresses in the outer list.\<close>

fun first_improvement_h ::
  "'a TwoOptVRP_scheme \<Rightarrow> store \<Rightarrow> (nat \<times> nat) list \<Rightarrow> store \<times> (nat \<times> nat \<times> real) option" where
  "first_improvement_h s h [] = (h, None)"
| "first_improvement_h s h ((route_idx, route) # rest) =
     (if length (ints_at h route) < 3 then first_improvement_h s h rest
      else case improve_route_2opt_h s h route of
             (h1, improved_route, improvement) \<Rightarrow>
               if improvement > 0.001 then (h1, Some (route_idx, improved_route, improvement))
               else first_improvement_h s h1 rest)"

text \<open>
  The state of the improvement loops on the store: the store, the address
  \<open>current_routes\<close> is bound to, and the other loop variables.
\<close>

record heap_state =
  heap :: store
  current_routes_ref :: nat
  distance_h :: real
  found_h :: bool
  without_h :: int
  total_h :: int

definition improve_pass_h :: "'a TwoOptVRP_scheme \<Rightarrow> heap_state \<Rightarrow> heap_state" where
  "improve_pass_h s hs =
     (case first_improvement_h s (heap hs)
             (enumerate 0 (refs_at (heap hs) (current_routes_ref hs))) of
        (h1, Some (route_idx, improved_route, improvement)) \<Rightarrow>
          hs\<lparr>heap := ref_set_item h1 (current_routes_ref hs) route_idx improved_route,
             distance_h := distance_h hs - improvement,
             found_h := True,
             without_h := 0,
             total_h := total_h hs + 1\<rparr>
      | (h1, None) \<Rightarrow>
          hs\<lparr>heap := h1,
             found_h := False,
             without_h := without_h hs + 1,
             total_h := total_h hs + 1\<rparr>)"

partial_function (option) improve_loop_h ::
  "'a TwoOptVRP_scheme \<Rightarrow> int \<Rightarrow> heap_state \<Rightarrow> heap_state option" where
  "improve_loop_h s max_iterations hs =
     (if found_h hs \<and> without_h hs < max_iterations
      then improve_loop_h s max_iterations (improve_pass_h s hs)
      else Some hs)"

text \<open>
  The scan of one pass of \<open>inter_route_2opt\<close>: each candidate copies the two routes and
  swaps the two customers in the copies.
\<close>

fun first_swap_h ::
  "'a TwoOptVRP_scheme \<Rightarrow> store \<Rightarrow> nat \<Rightarrow> (nat \<times> nat \<times> nat \<times> nat) list
     \<Rightarrow> store \<times> (nat \<times> nat \<times> nat \<times> nat \<times> real) option" where
  "first_swap_h s h cur [] = (h, None)"
| "first_swap_h s h cur ((i, j, ci, cj) # rest) =
     (case list_copy h (refs_at h cur ! i) of (h1, new_route_i) \<Rightarrow>
      case list_copy h1 (refs_at h1 cur ! j) of (h2, new_route_j) \<Rightarrow>
        (let h3 = int_set_item h2 new_route_i ci (ints_at h2 new_route_j ! cj);
             h4 = int_set_item h3 new_route_j cj (ints_at h2 new_route_i ! ci)
         in if is_route_feasible s (ints_at h4 new_route_i)
               \<and> is_route_feasible s (ints_at h4 new_route_j)
            then let old_distance = calculate_route_distance s (ints_at h4 (refs_at h4 cur ! i))
                                    + calculate_route_distance s (ints_at h4 (refs_at h4 cur ! j));
                     new_distance = calculate_route_distance s (ints_at h4 new_route_i)
                                    + calculate_route_distance s (ints_at h4 new_route_j)
                 in if new_distance < old_distance - 0.001
                    then (h4, Some (i, j, new_route_i, new_route_j, old_distance - new_distance))
                    else first_swap_h s h4 cur rest
            else first_swap_h s h4 cur rest))"

definition inter_pass_h :: "'a TwoOptVRP_scheme \<Rightarrow> heap_state \<Rightarrow> heap_state" where
  "inter_pass_h s hs =
     (case first_swap_h s (heap hs) (current_routes_ref hs)
             (swap_candidates (deref_routes (heap hs) (current_routes_ref hs))) of
        (h1, Some (i, j, new_route_i, new_route_j, improvement)) \<Rightarrow>
          hs\<lparr>heap := ref_set_item (ref_set_item h1 (current_routes_ref hs) i new_route_i)
                      (current_routes_ref hs) j new_route_j,
             distance_h := distance_h hs - improvement,
             found_h := True,
             without_h := 0,
             total_h := total_h hs + 1\<rparr>
      | (h1, None) \<Rightarrow>
          hs\<lparr>heap := h1,
             found_h := False,
             without_h := without_h hs + 1,
             total_h := total_h hs + 1\<rparr>)"

partial_function (option) inter_loop_h ::
  "'a TwoOptVRP_scheme \<Rightarrow> int \<Rightarrow> heap_state \<Rightarrow> heap_state option" where
  "inter_loop_h s max_iterations hs =
     (if found_h hs \<and> without_h hs < max_iterations
      then inter_loop_h s max_iterations (inter_pass_h s hs)
      else Some hs)"

text \<open>
  The two public operations on the store. They take the store and the address of the
  caller's list, and return the store they leave and either the error or the address of
  the returned \<open>routes\<close> list with the returned dictionary.
\<close>

definition initial_state_h :: "'a TwoOptVRP_scheme \<Rightarrow> store \<Rightarrow> nat \<Rightarrow> heap_state" where
  "initial_state_h s h cur =
     \<lparr>heap = h, current_routes_ref = cur,
      distance_h = calculate_total_distance s (deref_routes h cur),
      found_h = True, without_h = 0, total_h = 0\<rparr>"

definition loop_state_of :: "heap_state \<Rightarrow> loop_state" where
  "loop_state_of hs =
     \<lparr>current_routes = deref_routes (heap hs) (current_routes_ref hs),
      current_distance = distance_h hs, improvement_found = found_h hs,
      iterations_without_improvement = without_h hs, total_iterations = total_h hs\<rparr>"

definition improve_solution_h ::
  "'a TwoOptVRP_scheme \<Rightarrow> store \<Rightarrow> nat \<Rightarrow> int \<Rightarrow> (store \<times> (py_error + nat \<times> improvement)) option" where
  "improve_solution_h s h initial_routes max_iterations =
     (case deepcopy h initial_routes of (h1, current) \<Rightarrow>
        if \<not> routes_in_range s (deref_routes h1 current) then Some (h1, Inl IndexError)
        else case improve_loop_h s max_iterations (initial_state_h s h1 current) of
               None \<Rightarrow> None
             | Some hs \<Rightarrow> Some (heap hs, Inr (current_routes_ref hs, result_of s (loop_state_of hs))))"

definition inter_route_2opt_h ::
  "'a TwoOptVRP_scheme \<Rightarrow> store \<Rightarrow> nat \<Rightarrow> int \<Rightarrow> (store \<times> (py_error + nat \<times> improvement)) option" where
  "inter_route_2opt_h s h initial_routes max_iterations =
     (case deepcopy h initial_routes of (h1, current) \<Rightarrow>
        if \<not> routes_in_range s (deref_routes h1 current) then Some (h1, Inl IndexError)
        else case inter_loop_h s max_iterations (initial_state_h s h1 current) of
               None \<Rightarrow> None
             | Some hs \<Rightarrow> Some (heap hs, Inr (current_routes_ref hs, result_of s (loop_state_of hs))))"

section \<open>Input contract\<close>

text \<open>
  The input contract of an instance: the demand list is index-aligned with the customer
  list, and the matrix is the one \<open>__init__\<close> computes. Under it every lookup of a
  customer of the instance is in range.
\<close>

definition instance_ok :: "'a TwoOptVRP_scheme \<Rightarrow> bool" where
  "instance_ok s \<longleftrightarrow>
     num_customers s = length (customers s)
     \<and> length (demands s) = length (customers s)
     \<and> distance_matrix s = compute_distance_matrix (depot s) (customers s)"

definition savings_ok :: "'a SavingsAlgorithmVRP_scheme \<Rightarrow> bool" where
  "savings_ok s \<longleftrightarrow> instance_ok s \<and> savings_list s = calculate_savings s"

text \<open>
  The caller's argument: the address of a list object whose items are addresses of
  route objects.
\<close>

definition list_of_routes :: "store \<Rightarrow> nat \<Rightarrow> bool" where
  "list_of_routes h a \<longleftrightarrow>
     a < length h
     \<and> (\<exists>rs. h ! a = RefList rs \<and> list_all (\<lambda>r. r < length h \<and> (\<exists>xs. h ! r = IntList xs)) rs)"

chapter \<open>Facts about the program\<close>

section \<open>Facts about lists and moves\<close>

lemma sum_list_map_update:
  fixes f :: "'a \<Rightarrow> 'b::comm_monoid_add"
  assumes "k < length xs"
  shows "sum_list (map f (xs[k := x])) + f (xs ! k) = sum_list (map f xs) + f x"
proof -
  have a: "xs = take k xs @ xs ! k # drop (Suc k) xs"
    using assms by (simp add: id_take_nth_drop)
  have b: "xs[k := x] = take k xs @ x # drop (Suc k) xs"
    using assms by (simp add: upd_conv_take_nth_drop)
  have "sum_list (map f xs) = sum_list (map f (take k xs)) + f (xs ! k) + sum_list (map f (drop (Suc k) xs))"
    by (subst a) (simp add: add.assoc)
  moreover have "sum_list (map f (xs[k := x])) = sum_list (map f (take k xs)) + f x + sum_list (map f (drop (Suc k) xs))"
    by (subst b) (simp add: add.assoc)
  ultimately show ?thesis by (simp add: ac_simps)
qed

lemma mset_reverse_segment:
  assumes "i \<le> j"
  shows "mset (reverse_segment route i j) = mset route"
proof -
  have "drop (j + 1) route = drop (j - i) (drop (i + 1) route)"
    using assms by simp
  then have "mset (take (j - i) (drop (i + 1) route)) + mset (drop (j + 1) route) = mset (drop (i + 1) route)"
    by (metis append_take_drop_id mset_append)
  then have "mset (reverse_segment route i j) = mset (take (i + 1) route) + mset (drop (i + 1) route)"
    by (simp add: reverse_segment_def)
  then show ?thesis
    by (metis append_take_drop_id mset_append)
qed

lemma two_opt_pairs_iff:
  "(i, j) \<in> set (two_opt_pairs n) \<longleftrightarrow> i + 2 \<le> j \<and> j < n"
  apply (auto simp: two_opt_pairs_def)
  apply (rule_tac x=i in bexI) apply auto
  done

text \<open>
  Two route lists have the same shape when they hold the same customers in routes of the
  same lengths. Every move of the improver keeps the shape, and only finitely many route
  lists share one.
\<close>

definition same_shape :: "route list \<Rightarrow> route list \<Rightarrow> bool" where
  "same_shape a b \<longleftrightarrow> map length b = map length a \<and> mset (concat b) = mset (concat a)"

definition descent_measure :: "'a TwoOptVRP_scheme \<Rightarrow> route list \<Rightarrow> nat" where
  "descent_measure s a =
     card {b. same_shape a b \<and> calculate_total_distance s b < calculate_total_distance s a}"

lemma same_shape_refl: "same_shape a a"
  by (simp add: same_shape_def)

lemma same_shape_trans: "same_shape a b \<Longrightarrow> same_shape b c \<Longrightarrow> same_shape a c"
  by (simp add: same_shape_def)

lemma finite_same_shape: "finite {b. same_shape a b}"
proof -
  let ?U = "set (concat a)"
  let ?R = "{r. set r \<subseteq> ?U \<and> length r \<le> length (concat a)}"
  have finR: "finite ?R"
    by (rule finite_lists_length_le) simp
  have "{b. same_shape a b} \<subseteq> {b. set b \<subseteq> ?R \<and> length b = length a}"
  proof
    fix b assume "b \<in> {b. same_shape a b}"
    then have ml: "map length b = map length a" and ms: "mset (concat b) = mset (concat a)"
      by (simp_all add: same_shape_def)
    from ms have se: "set (concat b) = set (concat a)" by (rule mset_eq_setD)
    from ms have le: "length (concat b) = length (concat a)" by (rule mset_eq_length)
    have "r \<in> ?R" if "r \<in> set b" for r
    proof -
      from that have "set r \<subseteq> set (concat b)" by auto
      moreover have "length r \<le> length (concat b)"
        using that by (induction b) auto
      ultimately show ?thesis using se le by simp
    qed
    moreover from ml have "length b = length a" by (rule map_eq_imp_length_eq)
    ultimately show "b \<in> {b. set b \<subseteq> ?R \<and> length b = length a}" by auto
  qed
  moreover have "finite {b. set b \<subseteq> ?R \<and> length b = length a}"
    using finR by (rule finite_lists_length_eq)
  ultimately show ?thesis by (rule finite_subset)
qed

lemma descent_measure_less:
  assumes sh: "same_shape a b"
    and lt: "calculate_total_distance s b < calculate_total_distance s a"
  shows "descent_measure s b < descent_measure s a"
proof -
  let ?D = "calculate_total_distance s"
  let ?A = "{c. same_shape a c \<and> ?D c < ?D a}"
  let ?B = "{c. same_shape b c \<and> ?D c < ?D b}"
  have "finite ?A" using finite_same_shape [of a] by simp
  moreover have "?B \<subset> ?A"
  proof
    show "?B \<subseteq> ?A" using sh lt by (auto intro: same_shape_trans)
    have "b \<in> ?A" using sh lt by simp
    moreover have "b \<notin> ?B" by simp
    ultimately show "?B \<noteq> ?A" by blast
  qed
  ultimately show ?thesis unfolding descent_measure_def by (rule psubset_card_mono)
qed

definition two_opt_inv :: "'a TwoOptVRP_scheme \<Rightarrow> route \<Rightarrow> route \<times> real \<Rightarrow> bool" where
  "two_opt_inv s route best \<longleftrightarrow>
     mset (fst best) = mset route
     \<and> snd best = calculate_route_distance s route - calculate_route_distance s (fst best)
     \<and> 0 \<le> snd best"

lemma two_opt_step_inv:
  assumes ij: "fst ij \<le> snd ij" and inv: "two_opt_inv s route best"
  shows "two_opt_inv s route (two_opt_step s route (calculate_route_distance s route) best ij)"
  using inv mset_reverse_segment [OF ij, of route]
  by (simp add: two_opt_step_def two_opt_inv_def Let_def)

lemma foldl_two_opt_step_inv:
  assumes "\<forall>ij\<in>set ps. fst ij \<le> snd ij" and "two_opt_inv s route best"
  shows "two_opt_inv s route (foldl (two_opt_step s route (calculate_route_distance s route)) best ps)"
  using assms
proof (induction ps arbitrary: best)
  case Nil
  then show ?case by simp
next
  case (Cons p ps)
  have "fst p \<le> snd p" using Cons.prems(1) by simp
  then have "two_opt_inv s route (two_opt_step s route (calculate_route_distance s route) best p)"
    using Cons.prems(2) by (rule two_opt_step_inv)
  moreover have "\<forall>ij\<in>set ps. fst ij \<le> snd ij" using Cons.prems(1) by simp
  ultimately show ?case using Cons.IH by simp
qed

lemma two_opt_pairs_ordered: "\<forall>ij\<in>set (two_opt_pairs n). fst ij \<le> snd ij"
  by (auto simp: two_opt_pairs_def)

lemma improve_route_2opt_inv: "two_opt_inv s route (improve_route_2opt s route)"
  unfolding improve_route_2opt_def
  by (rule foldl_two_opt_step_inv [OF two_opt_pairs_ordered]) (simp add: two_opt_inv_def)

lemma improve_route_2opt_mset: "mset (fst (improve_route_2opt s route)) = mset route"
  using improve_route_2opt_inv [of s route] by (simp add: two_opt_inv_def)

lemma improve_route_2opt_delta:
  "snd (improve_route_2opt s route)
     = calculate_route_distance s route - calculate_route_distance s (fst (improve_route_2opt s route))"
  using improve_route_2opt_inv [of s route] by (simp add: two_opt_inv_def)

lemma improve_route_2opt_nonneg: "0 \<le> snd (improve_route_2opt s route)"
  using improve_route_2opt_inv [of s route] by (simp add: two_opt_inv_def)

lemma first_improvement_Some:
  assumes "first_improvement s ps = Some (idx, r', imp)"
  shows "\<exists>route. (idx, route) \<in> set ps \<and> 3 \<le> length route
          \<and> (r', imp) = improve_route_2opt s route \<and> imp > 0.001"
  using assms
proof (induction ps)
  case Nil
  then show ?case by simp
next
  case (Cons p ps)
  obtain k route where p: "p = (k, route)" by (cases p) auto
  show ?case
  proof (cases "length route < 3 \<or> \<not> snd (improve_route_2opt s route) > 0.001")
    case True
    then have "first_improvement s ps = Some (idx, r', imp)"
      using Cons.prems p by (auto split: if_splits)
    from Cons.IH [OF this] show ?thesis by auto
  next
    case False
    then have "Some (k, improve_route_2opt s route) = Some (idx, r', imp)"
      using Cons.prems p by (simp split: if_splits)
    then have "k = idx" and "improve_route_2opt s route = (r', imp)" by simp_all
    then show ?thesis using False p by (intro exI [of _ route]) auto
  qed
qed

lemma first_improvement_None:
  "first_improvement s ps = None \<longleftrightarrow>
     (\<forall>(idx, route)\<in>set ps. length route < 3 \<or> snd (improve_route_2opt s route) \<le> 0.001)"
  by (induction ps) (auto split: if_splits)

lemma first_improvement_enumerate:
  assumes "first_improvement s (enumerate 0 rs) = Some (idx, r', imp)"
  shows "idx < length rs \<and> 3 \<le> length (rs ! idx)
          \<and> (r', imp) = improve_route_2opt s (rs ! idx) \<and> imp > 0.001"
  using first_improvement_Some [OF assms] by (auto simp: in_set_enumerate_eq)

lemma same_shape_update:
  assumes "k < length rs" and "mset r' = mset (rs ! k)"
  shows "same_shape rs (rs[k := r'])"
proof -
  have "length r' = length (rs ! k)" using assms(2) by (rule mset_eq_length)
  then have "map length (rs[k := r']) = map length rs"
    by (simp add: map_update list_update_same_conv assms(1))
  moreover have "sum_list (map mset (rs[k := r'])) + mset (rs ! k) = sum_list (map mset rs) + mset r'"
    using assms(1) by (rule sum_list_map_update)
  then have "mset (concat (rs[k := r'])) = mset (concat rs)"
    using assms(2) by (simp add: mset_concat)
  ultimately show ?thesis by (simp add: same_shape_def)
qed

lemma total_distance_update:
  assumes "k < length rs"
  shows "calculate_total_distance s (rs[k := r'])
           = calculate_total_distance s rs - calculate_route_distance s (rs ! k) + calculate_route_distance s r'"
  using sum_list_map_update [OF assms, of "calculate_route_distance s" r']
  by (simp add: calculate_total_distance_def)

lemma intra_move:
  assumes "first_improvement s (enumerate 0 rs) = Some (idx, r', imp)"
  shows "same_shape rs (rs[idx := r'])"
    and "calculate_total_distance s (rs[idx := r']) = calculate_total_distance s rs - imp"
    and "imp > 0.001"
proof -
  from first_improvement_enumerate [OF assms]
  have k: "idx < length rs" and eq: "(r', imp) = improve_route_2opt s (rs ! idx)" and imp: "imp > 0.001"
    by simp_all
  from eq have r': "r' = fst (improve_route_2opt s (rs ! idx))" and i': "imp = snd (improve_route_2opt s (rs ! idx))"
    by (metis fst_conv, metis snd_conv)
  show "same_shape rs (rs[idx := r'])"
    using k by (rule same_shape_update) (simp add: r' improve_route_2opt_mset)
  show "calculate_total_distance s (rs[idx := r']) = calculate_total_distance s rs - imp"
    using total_distance_update [OF k, of s r'] improve_route_2opt_delta [of s "rs ! idx"]
    by (simp add: r' i')
  show "imp > 0.001" by (rule imp)
qed

definition loop_measure :: "'a TwoOptVRP_scheme \<Rightarrow> loop_state \<Rightarrow> nat" where
  "loop_measure s st =
     (if improvement_found st then 1 + descent_measure s (current_routes st) else 0)"

lemma improve_pass_measure:
  assumes "improvement_found st"
  shows "loop_measure s (improve_pass s st) < loop_measure s st"
proof (cases "first_improvement s (enumerate 0 (current_routes st))")
  case None
  then show ?thesis using assms by (simp add: improve_pass_def loop_measure_def)
next
  case (Some m)
  obtain idx r' imp where m: "m = (idx, r', imp)" by (cases m) auto
  from intra_move [OF Some [unfolded m]]
  have "descent_measure s ((current_routes st)[idx := r']) < descent_measure s (current_routes st)"
    by (intro descent_measure_less) simp_all
  then show ?thesis using assms Some m by (simp add: improve_pass_def loop_measure_def)
qed

termination improve_loop
  by (relation "measure (\<lambda>(s, m, st). loop_measure s st)") (simp_all add: improve_pass_measure)

lemma swap_candidates_iff:
  "(i, j, ci, cj) \<in> set (swap_candidates rs) \<longleftrightarrow>
     i < j \<and> j < length rs \<and> ci < length (rs ! i) \<and> cj < length (rs ! j)"
proof
  assume "(i, j, ci, cj) \<in> set (swap_candidates rs)"
  then show "i < j \<and> j < length rs \<and> ci < length (rs ! i) \<and> cj < length (rs ! j)"
    by (auto simp: swap_candidates_def)
next
  assume a: "i < j \<and> j < length rs \<and> ci < length (rs ! i) \<and> cj < length (rs ! j)"
  then have "rs ! i \<noteq> []" and "rs ! j \<noteq> []" by auto
  with a show "(i, j, ci, cj) \<in> set (swap_candidates rs)"
    apply (simp add: swap_candidates_def)
    apply (rule bexI [of _ i])
     apply (rule bexI [of _ j])
      apply (rule bexI [of _ ci])
       apply auto
    done
qed

lemma first_swap_Some:
  assumes "first_swap s rs = Some (i, j, ci, cj)"
  shows "i < j \<and> j < length rs \<and> ci < length (rs ! i) \<and> cj < length (rs ! j)
         \<and> swap_accepted s rs (i, j, ci, cj)"
proof -
  from assms have "(i, j, ci, cj) \<in> set (swap_candidates rs)" and "swap_accepted s rs (i, j, ci, cj)"
    unfolding first_swap_def by (auto simp: find_Some_iff)
  then show ?thesis by (simp add: swap_candidates_iff)
qed

lemma mset_swap_customers:
  assumes "ci < length ri" and "cj < length rj"
  shows "mset (fst (swap_customers ri rj ci cj)) + mset (snd (swap_customers ri rj ci cj))
           = mset ri + mset rj"
proof -
  have a: "ri ! ci \<in># mset ri" and b: "rj ! cj \<in># mset rj" using assms by simp_all
  have "mset (ri[ci := rj ! cj]) + mset (rj[cj := ri ! ci])
          = add_mset (rj ! cj) (mset ri - {#ri ! ci#}) + add_mset (ri ! ci) (mset rj - {#rj ! cj#})"
    using assms by (simp add: mset_update)
  also have "\<dots> = add_mset (ri ! ci) (mset ri - {#ri ! ci#}) + add_mset (rj ! cj) (mset rj - {#rj ! cj#})"
    by simp
  also have "\<dots> = mset ri + mset rj"
    using a b by simp
  finally show ?thesis by (simp add: swap_customers_def)
qed

lemma sum_list_map_update2:
  fixes f :: "'a \<Rightarrow> 'b::comm_monoid_add"
  assumes "i < j" and "j < length xs"
  shows "sum_list (map f (xs[i := x, j := y])) + (f (xs ! i) + f (xs ! j))
           = sum_list (map f xs) + (f x + f y)"
proof -
  have i: "i < length xs" using assms by simp
  have j: "j < length (xs[i := x])" using assms by simp
  have nj: "xs[i := x] ! j = xs ! j" using assms by simp
  have "sum_list (map f (xs[i := x, j := y])) + f (xs ! j) + f (xs ! i)
          = sum_list (map f (xs[i := x])) + f y + f (xs ! i)"
    using sum_list_map_update [OF j, of f y] by (simp add: nj)
  also have "\<dots> = sum_list (map f (xs[i := x])) + f (xs ! i) + f y"
    by (simp add: ac_simps)
  also have "\<dots> = sum_list (map f xs) + f x + f y"
    using sum_list_map_update [OF i, of f x] by simp
  finally show ?thesis by (simp add: ac_simps)
qed

lemma inter_move:
  assumes "first_swap s rs = Some c"
  shows "same_shape rs (apply_swap rs c)"
    and "calculate_total_distance s (apply_swap rs c)
           = calculate_total_distance s rs - (swap_old_distance s rs c - swap_new_distance s rs c)"
    and "swap_old_distance s rs c - swap_new_distance s rs c > 0.001"
proof -
  obtain i j ci cj where c: "c = (i, j, ci, cj)" by (cases c) auto
  from first_swap_Some [OF assms [unfolded c]]
  have ij: "i < j" and j: "j < length rs" and ci: "ci < length (rs ! i)" and cj: "cj < length (rs ! j)"
    and acc: "swap_accepted s rs (i, j, ci, cj)" by simp_all
  let ?ni = "fst (swap_customers (rs ! i) (rs ! j) ci cj)"
  let ?nj = "snd (swap_customers (rs ! i) (rs ! j) ci cj)"
  have ap: "apply_swap rs c = rs[i := ?ni, j := ?nj]" by (simp add: apply_swap_def c)
  have "(map length rs)[i := length (rs ! i)] = map length rs"
    using ij j by (simp add: list_update_same_conv)
  moreover have "(map length rs)[j := length (rs ! j)] = map length rs"
    using j by (simp add: list_update_same_conv)
  ultimately have "map length (rs[i := ?ni, j := ?nj]) = map length rs"
    by (simp add: map_update swap_customers_def)
  moreover have "sum_list (map mset (rs[i := ?ni, j := ?nj])) + (mset (rs ! i) + mset (rs ! j))
                   = sum_list (map mset rs) + (mset ?ni + mset ?nj)"
    using ij j by (rule sum_list_map_update2)
  then have "mset (concat (rs[i := ?ni, j := ?nj])) = mset (concat rs)"
    using mset_swap_customers [OF ci cj] by (simp add: mset_concat)
  ultimately show "same_shape rs (apply_swap rs c)" by (simp add: same_shape_def ap)
  have "calculate_total_distance s (rs[i := ?ni, j := ?nj])
          + (calculate_route_distance s (rs ! i) + calculate_route_distance s (rs ! j))
        = calculate_total_distance s rs + (calculate_route_distance s ?ni + calculate_route_distance s ?nj)"
    unfolding calculate_total_distance_def using ij j by (rule sum_list_map_update2)
  then show "calculate_total_distance s (apply_swap rs c)
           = calculate_total_distance s rs - (swap_old_distance s rs c - swap_new_distance s rs c)"
    by (simp add: apply_swap_def c swap_old_distance_def swap_new_distance_def)
  show "swap_old_distance s rs c - swap_new_distance s rs c > 0.001"
    using acc by (simp add: swap_accepted_def c)
qed

lemma inter_pass_measure:
  assumes "improvement_found st"
  shows "loop_measure s (inter_pass s st) < loop_measure s st"
proof (cases "first_swap s (current_routes st)")
  case None
  then show ?thesis using assms by (simp add: inter_pass_def loop_measure_def)
next
  case (Some c)
  from inter_move [OF Some]
  have "descent_measure s (apply_swap (current_routes st) c) < descent_measure s (current_routes st)"
    by (intro descent_measure_less) simp_all
  then show ?thesis using assms Some by (simp add: inter_pass_def loop_measure_def Let_def)
qed

termination inter_loop
  by (relation "measure (\<lambda>(s, m, st). loop_measure s st)") (simp_all add: inter_pass_measure)

lemma instance_ok_init:
  "length dems = length custs \<Longrightarrow> instance_ok (TwoOptVRP_init dep custs dems cap)"
  by (simp add: instance_ok_def TwoOptVRP_init_def)

subsection \<open>What one pass does to the loop state\<close>

definition distance_tracked :: "'a TwoOptVRP_scheme \<Rightarrow> loop_state \<Rightarrow> bool" where
  "distance_tracked s st \<longleftrightarrow> current_distance st = calculate_total_distance s (current_routes st)"

lemma improve_pass_tracked:
  "distance_tracked s st \<Longrightarrow> distance_tracked s (improve_pass s st)"
proof (cases "first_improvement s (enumerate 0 (current_routes st))")
  case None
  then show "distance_tracked s st \<Longrightarrow> ?thesis" by (simp add: improve_pass_def distance_tracked_def)
next
  case (Some m)
  obtain idx r' imp where m: "m = (idx, r', imp)" by (cases m) auto
  from intra_move(2) [OF Some [unfolded m]] Some m
  show "distance_tracked s st \<Longrightarrow> ?thesis" by (simp add: improve_pass_def distance_tracked_def)
qed

lemma inter_pass_tracked:
  "distance_tracked s st \<Longrightarrow> distance_tracked s (inter_pass s st)"
proof (cases "first_swap s (current_routes st)")
  case None
  then show "distance_tracked s st \<Longrightarrow> ?thesis" by (simp add: inter_pass_def distance_tracked_def)
next
  case (Some c)
  from inter_move(2) [OF Some] Some
  show "distance_tracked s st \<Longrightarrow> ?thesis" by (simp add: inter_pass_def distance_tracked_def Let_def)
qed

lemma improve_pass_mono: "current_distance (improve_pass s st) \<le> current_distance st"
proof (cases "first_improvement s (enumerate 0 (current_routes st))")
  case None
  then show ?thesis by (simp add: improve_pass_def)
next
  case (Some m)
  obtain idx r' imp where m: "m = (idx, r', imp)" by (cases m) auto
  from intra_move(3) [OF Some [unfolded m]] Some m
  show ?thesis by (simp add: improve_pass_def)
qed

lemma inter_pass_mono: "current_distance (inter_pass s st) \<le> current_distance st"
proof (cases "first_swap s (current_routes st)")
  case None
  then show ?thesis by (simp add: inter_pass_def)
next
  case (Some c)
  from inter_move(3) [OF Some] Some
  show ?thesis by (simp add: inter_pass_def Let_def)
qed


lemma inter_pass_shape: "same_shape (current_routes st) (current_routes (inter_pass s st))"
proof (cases "first_swap s (current_routes st)")
  case None
  then show ?thesis by (simp add: inter_pass_def same_shape_refl)
next
  case (Some c)
  from inter_move(1) [OF Some] Some
  show ?thesis by (simp add: inter_pass_def Let_def)
qed

subsection \<open>What the loops keep\<close>

declare improve_loop.simps [simp del] inter_loop.simps [simp del]

lemma improve_loop_continue:
  "improvement_found st \<and> iterations_without_improvement st < m \<Longrightarrow>
     improve_loop s m st = improve_loop s m (improve_pass s st)"
  by (subst improve_loop.simps) simp

lemma improve_loop_stop:
  "\<not> (improvement_found st \<and> iterations_without_improvement st < m) \<Longrightarrow> improve_loop s m st = st"
  by (subst improve_loop.simps) auto

lemma inter_loop_continue:
  "improvement_found st \<and> iterations_without_improvement st < m \<Longrightarrow>
     inter_loop s m st = inter_loop s m (inter_pass s st)"
  by (subst inter_loop.simps) simp

lemma inter_loop_stop:
  "\<not> (improvement_found st \<and> iterations_without_improvement st < m) \<Longrightarrow> inter_loop s m st = st"
  by (subst inter_loop.simps) auto

lemma improve_loop_tracked:
  "distance_tracked s st \<Longrightarrow> distance_tracked s (improve_loop s m st)"
proof (induction s m st rule: improve_loop.induct)
  case (1 s m st)
  show ?case
  proof (cases "improvement_found st \<and> iterations_without_improvement st < m")
    case True
    then show ?thesis
      using "1.IH" [OF True improve_pass_tracked [OF "1.prems"]]
      by (simp add: improve_loop_continue [OF True])
  next
    case False
    then show ?thesis using "1.prems" by (simp add: improve_loop_stop)
  qed
qed

lemma inter_loop_tracked:
  "distance_tracked s st \<Longrightarrow> distance_tracked s (inter_loop s m st)"
proof (induction s m st rule: inter_loop.induct)
  case (1 s m st)
  show ?case
  proof (cases "improvement_found st \<and> iterations_without_improvement st < m")
    case True
    then show ?thesis
      using "1.IH" [OF True inter_pass_tracked [OF "1.prems"]]
      by (simp add: inter_loop_continue [OF True])
  next
    case False
    then show ?thesis using "1.prems" by (simp add: inter_loop_stop)
  qed
qed

lemma improve_loop_mono: "current_distance (improve_loop s m st) \<le> current_distance st"
proof (induction s m st rule: improve_loop.induct)
  case (1 s m st)
  show ?case
  proof (cases "improvement_found st \<and> iterations_without_improvement st < m")
    case True
    have "current_distance (improve_loop s m (improve_pass s st)) \<le> current_distance (improve_pass s st)"
      using "1.IH" [OF True] .
    also have "\<dots> \<le> current_distance st" by (rule improve_pass_mono)
    finally show ?thesis by (simp add: improve_loop_continue [OF True])
  next
    case False
    then show ?thesis by (simp add: improve_loop_stop)
  qed
qed

lemma inter_loop_mono: "current_distance (inter_loop s m st) \<le> current_distance st"
proof (induction s m st rule: inter_loop.induct)
  case (1 s m st)
  show ?case
  proof (cases "improvement_found st \<and> iterations_without_improvement st < m")
    case True
    have "current_distance (inter_loop s m (inter_pass s st)) \<le> current_distance (inter_pass s st)"
      using "1.IH" [OF True] .
    also have "\<dots> \<le> current_distance st" by (rule inter_pass_mono)
    finally show ?thesis by (simp add: inter_loop_continue [OF True])
  next
    case False
    then show ?thesis by (simp add: inter_loop_stop)
  qed
qed


lemma inter_loop_shape: "same_shape (current_routes st) (current_routes (inter_loop s m st))"
proof (induction s m st rule: inter_loop.induct)
  case (1 s m st)
  show ?case
  proof (cases "improvement_found st \<and> iterations_without_improvement st < m")
    case True
    have "same_shape (current_routes st) (current_routes (inter_loop s m (inter_pass s st)))"
      using inter_pass_shape "1.IH" [OF True] by (rule same_shape_trans)
    then show ?thesis by (simp add: inter_loop_continue [OF True])
  next
    case False
    then show ?thesis by (simp add: inter_loop_stop same_shape_refl)
  qed
qed



subsection \<open>The fixed point the intra-route loop stops at\<close>

lemma improve_pass_None:
  assumes "first_improvement s (enumerate 0 (current_routes st)) = None"
  shows "improve_pass s st
           = st\<lparr>improvement_found := False,
                iterations_without_improvement := iterations_without_improvement st + 1,
                total_iterations := total_iterations st + 1\<rparr>"
  using assms by (simp add: improve_pass_def)

lemma improve_pass_found_iff:
  "improvement_found (improve_pass s st) \<longleftrightarrow>
     first_improvement s (enumerate 0 (current_routes st)) \<noteq> None"
  by (auto simp: improve_pass_def split: option.splits)


lemma improve_pass_counters:
  "total_iterations (improve_pass s st) = total_iterations st + 1"
  "improvement_found (improve_pass s st) \<Longrightarrow> iterations_without_improvement (improve_pass s st) = 0"
  "\<not> improvement_found (improve_pass s st) \<Longrightarrow>
     iterations_without_improvement (improve_pass s st) = iterations_without_improvement st + 1"
  "\<not> improvement_found (improve_pass s st) \<Longrightarrow> current_routes (improve_pass s st) = current_routes st"
  "\<not> improvement_found (improve_pass s st) \<Longrightarrow> current_distance (improve_pass s st) = current_distance st"
  by (auto simp: improve_pass_def split: option.splits)



subsection \<open>The best move of a route\<close>

text \<open>The distance delta of a candidate: old route distance minus new route distance.\<close>

definition two_opt_gain :: "'a TwoOptVRP_scheme \<Rightarrow> route \<Rightarrow> nat \<times> nat \<Rightarrow> real" where
  "two_opt_gain s route ij =
     calculate_route_distance s route
     - calculate_route_distance s (reverse_segment route (fst ij) (snd ij))"

lemma route_load_mset: "mset a = mset b \<Longrightarrow> route_load s a = route_load s b"
proof -
  assume "mset a = mset b"
  then have "mset (map (\<lambda>c. demands s ! c) a) = mset (map (\<lambda>c. demands s ! c) b)"
    by simp
  then have "sum_mset (mset (map (\<lambda>c. demands s ! c) a)) = sum_mset (mset (map (\<lambda>c. demands s ! c) b))"
    by (rule arg_cong)
  then show ?thesis unfolding route_load_def by (simp only: sum_mset_sum_list)
qed

lemma feasible_reverse_segment:
  "i \<le> j \<Longrightarrow> is_route_feasible s (reverse_segment route i j) = is_route_feasible s route"
  by (simp add: is_route_feasible_def route_load_mset [OF mset_reverse_segment])

lemma two_opt_step_feasible:
  assumes "is_route_feasible s route" and "fst ij \<le> snd ij"
  shows "two_opt_step s route (calculate_route_distance s route) best ij
           = (if two_opt_gain s route ij > snd best
              then (reverse_segment route (fst ij) (snd ij), two_opt_gain s route ij) else best)"
  using assms by (simp add: two_opt_step_def Let_def feasible_reverse_segment two_opt_gain_def)

lemma two_opt_step_infeasible:
  assumes "\<not> is_route_feasible s route" and "fst ij \<le> snd ij"
  shows "two_opt_step s route d best ij = best"
  using assms by (simp add: two_opt_step_def Let_def feasible_reverse_segment)

lemma foldl_two_opt_step_infeasible:
  assumes "\<not> is_route_feasible s route" and "\<forall>ij\<in>set ps. fst ij \<le> snd ij"
  shows "foldl (two_opt_step s route d) best ps = best"
  using assms(2) by (induction ps) (simp_all add: two_opt_step_infeasible [OF assms(1)])

lemma foldl_two_opt_step_best:
  assumes "is_route_feasible s route" and "\<forall>ij\<in>set ps. fst ij \<le> snd ij"
  shows "snd best \<le> snd (foldl (two_opt_step s route (calculate_route_distance s route)) best ps)
       \<and> (\<forall>ij\<in>set ps. two_opt_gain s route ij
              \<le> snd (foldl (two_opt_step s route (calculate_route_distance s route)) best ps))
       \<and> (foldl (two_opt_step s route (calculate_route_distance s route)) best ps = best
          \<or> (\<exists>ij\<in>set ps. foldl (two_opt_step s route (calculate_route_distance s route)) best ps
                 = (reverse_segment route (fst ij) (snd ij), two_opt_gain s route ij)))"
  using assms(2)
proof (induction ps arbitrary: best)
  case Nil
  then show ?case by simp
next
  case (Cons p ps)
  let ?d = "calculate_route_distance s route"
  let ?b = "two_opt_step s route ?d best p"
  have p: "fst p \<le> snd p" and ps: "\<forall>ij\<in>set ps. fst ij \<le> snd ij" using Cons.prems by simp_all
  have st: "?b = (if two_opt_gain s route p > snd best
                 then (reverse_segment route (fst p) (snd p), two_opt_gain s route p) else best)"
    using assms(1) p by (rule two_opt_step_feasible)
  from Cons.IH [OF ps, of ?b]
  have ih1: "snd ?b \<le> snd (foldl (two_opt_step s route ?d) ?b ps)"
    and ih2: "\<forall>ij\<in>set ps. two_opt_gain s route ij \<le> snd (foldl (two_opt_step s route ?d) ?b ps)"
    and ih3: "foldl (two_opt_step s route ?d) ?b ps = ?b
          \<or> (\<exists>ij\<in>set ps. foldl (two_opt_step s route ?d) ?b ps
                 = (reverse_segment route (fst ij) (snd ij), two_opt_gain s route ij))"
    by simp_all
  have b1: "snd best \<le> snd ?b" and b2: "two_opt_gain s route p \<le> snd ?b"
    by (simp_all add: st)
  have b3: "?b = best \<or> ?b = (reverse_segment route (fst p) (snd p), two_opt_gain s route p)"
    by (simp add: st)
  have "snd best \<le> snd (foldl (two_opt_step s route ?d) ?b ps)"
    using b1 ih1 by simp
  moreover have "\<forall>ij\<in>set (p # ps). two_opt_gain s route ij \<le> snd (foldl (two_opt_step s route ?d) ?b ps)"
    using b2 ih1 ih2 by auto
  moreover have "foldl (two_opt_step s route ?d) ?b ps = best
          \<or> (\<exists>ij\<in>set (p # ps). foldl (two_opt_step s route ?d) ?b ps
                 = (reverse_segment route (fst ij) (snd ij), two_opt_gain s route ij))"
    using b3 ih3 by auto
  ultimately show ?case by simp
qed

lemma improve_route_2opt_best:
  assumes "snd (improve_route_2opt s route) > 0"
  shows "\<exists>ij\<in>set (two_opt_pairs (length route)).
           improve_route_2opt s route = (reverse_segment route (fst ij) (snd ij), two_opt_gain s route ij)
           \<and> (\<forall>ij'\<in>set (two_opt_pairs (length route)). two_opt_gain s route ij' \<le> two_opt_gain s route ij)"
proof -
  have feas: "is_route_feasible s route"
  proof (rule ccontr)
    assume "\<not> is_route_feasible s route"
    then have "improve_route_2opt s route = (route, 0)"
      unfolding improve_route_2opt_def
      by (rule foldl_two_opt_step_infeasible) (rule two_opt_pairs_ordered)
    then show False using assms by simp
  qed
  let ?r = "improve_route_2opt s route"
  from foldl_two_opt_step_best [OF feas two_opt_pairs_ordered [of "length route"], where best = "(route, 0)"]
  have mx: "\<forall>ij\<in>set (two_opt_pairs (length route)). two_opt_gain s route ij \<le> snd ?r"
    and ch: "?r = (route, 0) \<or> (\<exists>ij\<in>set (two_opt_pairs (length route)).
                 ?r = (reverse_segment route (fst ij) (snd ij), two_opt_gain s route ij))"
    by (simp_all add: improve_route_2opt_def)
  from ch assms obtain ij where ij: "ij \<in> set (two_opt_pairs (length route))"
    and eq: "?r = (reverse_segment route (fst ij) (snd ij), two_opt_gain s route ij)"
    by auto
  from eq have "snd ?r = two_opt_gain s route ij" by simp
  with mx have "\<forall>ij'\<in>set (two_opt_pairs (length route)). two_opt_gain s route ij' \<le> two_opt_gain s route ij"
    by simp
  with ij eq show ?thesis by blast
qed

subsection \<open>How many passes the loops run\<close>

lemma inter_pass_counters:
  "total_iterations (inter_pass s st) = total_iterations st + 1"
  "improvement_found (inter_pass s st) \<Longrightarrow> iterations_without_improvement (inter_pass s st) = 0"
  "\<not> improvement_found (inter_pass s st) \<Longrightarrow>
     iterations_without_improvement (inter_pass s st) = iterations_without_improvement st + 1"
  "\<not> improvement_found (inter_pass s st) \<Longrightarrow> current_routes (inter_pass s st) = current_routes st"
  "\<not> improvement_found (inter_pass s st) \<Longrightarrow> current_distance (inter_pass s st) = current_distance st"
  by (auto simp: inter_pass_def Let_def split: option.splits)

text \<open>
  A run of \<open>k\<close> passes in which every pass but the last accepts a move and the last
  accepts none.
\<close>

definition runs_until_no_improvement ::
  "(loop_state \<Rightarrow> loop_state) \<Rightarrow> loop_state \<Rightarrow> nat \<Rightarrow> bool" where
  "runs_until_no_improvement pass st k \<longleftrightarrow>
     0 < k \<and> (\<forall>i. 0 < i \<and> i < k \<longrightarrow> improvement_found ((pass ^^ i) st))
     \<and> \<not> improvement_found ((pass ^^ k) st)"

lemma runs_until_no_improvement_one:
  "\<not> improvement_found (pass st) \<Longrightarrow> runs_until_no_improvement pass st 1"
  by (simp add: runs_until_no_improvement_def)

lemma runs_until_no_improvement_Suc:
  assumes "improvement_found (pass st)" and "runs_until_no_improvement pass (pass st) k"
  shows "runs_until_no_improvement pass st (Suc k)"
proof -
  have sw: "(pass ^^ i) (pass st) = (pass ^^ Suc i) st" for i
    by (simp add: funpow_swap1)
  have "improvement_found ((pass ^^ i) st)" if "0 < i" and "i < Suc k" for i
  proof (cases i)
    case 0
    then show ?thesis using that by simp
  next
    case (Suc j)
    show ?thesis
    proof (cases "j = 0")
      case True
      then show ?thesis using Suc assms(1) by simp
    next
      case False
      then have "improvement_found ((pass ^^ j) (pass st))"
        using assms(2) that Suc by (simp add: runs_until_no_improvement_def)
      then show ?thesis using Suc sw by simp
    qed
  qed
  moreover have "\<not> improvement_found ((pass ^^ Suc k) st)"
    using assms(2) sw [of k] by (simp add: runs_until_no_improvement_def)
  ultimately show ?thesis by (simp add: runs_until_no_improvement_def)
qed

lemma improve_loop_passes:
  assumes "0 < m" and "improvement_found st" and "iterations_without_improvement st = 0"
  shows "\<exists>k. improve_loop s m st = (improve_pass s ^^ k) st
           \<and> runs_until_no_improvement (improve_pass s) st k
           \<and> total_iterations (improve_loop s m st) = total_iterations st + int k
           \<and> iterations_without_improvement (improve_loop s m st) = 1"
  using assms
proof (induction s m st rule: improve_loop.induct)
  case (1 s m st)
  have c: "improvement_found st \<and> iterations_without_improvement st < m" using "1.prems" by simp
  show ?case
  proof (cases "improvement_found (improve_pass s st)")
    case True
    then have "iterations_without_improvement (improve_pass s st) = 0"
      by (simp add: improve_pass_counters)
    from "1.IH" [OF c "1.prems"(1) True this]
    obtain k where k: "improve_loop s m (improve_pass s st) = (improve_pass s ^^ k) (improve_pass s st)"
      and r: "runs_until_no_improvement (improve_pass s) (improve_pass s st) k"
      and t: "total_iterations (improve_loop s m (improve_pass s st)) = total_iterations (improve_pass s st) + int k"
      and w: "iterations_without_improvement (improve_loop s m (improve_pass s st)) = 1"
      by blast
    have "improve_loop s m st = (improve_pass s ^^ Suc k) st"
      using k by (simp add: improve_loop_continue [OF c] funpow_swap1)
    moreover have "runs_until_no_improvement (improve_pass s) st (Suc k)"
      using True r by (rule runs_until_no_improvement_Suc)
    moreover have "total_iterations (improve_loop s m st) = total_iterations st + int (Suc k)"
      using t by (simp add: improve_loop_continue [OF c] improve_pass_counters)
    moreover have "iterations_without_improvement (improve_loop s m st) = 1"
      using w by (simp add: improve_loop_continue [OF c])
    ultimately show ?thesis by blast
  next
    case False
    then have stop: "improve_loop s m st = improve_pass s st"
      by (simp add: improve_loop_continue [OF c] improve_loop_stop)
    have "improve_loop s m st = (improve_pass s ^^ 1) st"
      using stop by simp
    moreover have "runs_until_no_improvement (improve_pass s) st 1"
      using False by (rule runs_until_no_improvement_one)
    moreover have "total_iterations (improve_loop s m st) = total_iterations st + int 1"
      using stop by (simp add: improve_pass_counters)
    moreover have "iterations_without_improvement (improve_loop s m st) = 1"
      using stop False "1.prems"(3) by (simp add: improve_pass_counters)
    ultimately show ?thesis by blast
  qed
qed

lemma inter_loop_passes:
  assumes "0 < m" and "improvement_found st" and "iterations_without_improvement st = 0"
  shows "\<exists>k. inter_loop s m st = (inter_pass s ^^ k) st
           \<and> runs_until_no_improvement (inter_pass s) st k
           \<and> total_iterations (inter_loop s m st) = total_iterations st + int k
           \<and> iterations_without_improvement (inter_loop s m st) = 1"
  using assms
proof (induction s m st rule: inter_loop.induct)
  case (1 s m st)
  have c: "improvement_found st \<and> iterations_without_improvement st < m" using "1.prems" by simp
  show ?case
  proof (cases "improvement_found (inter_pass s st)")
    case True
    then have "iterations_without_improvement (inter_pass s st) = 0"
      by (simp add: inter_pass_counters)
    from "1.IH" [OF c "1.prems"(1) True this]
    obtain k where k: "inter_loop s m (inter_pass s st) = (inter_pass s ^^ k) (inter_pass s st)"
      and r: "runs_until_no_improvement (inter_pass s) (inter_pass s st) k"
      and t: "total_iterations (inter_loop s m (inter_pass s st)) = total_iterations (inter_pass s st) + int k"
      and w: "iterations_without_improvement (inter_loop s m (inter_pass s st)) = 1"
      by blast
    have "inter_loop s m st = (inter_pass s ^^ Suc k) st"
      using k by (simp add: inter_loop_continue [OF c] funpow_swap1)
    moreover have "runs_until_no_improvement (inter_pass s) st (Suc k)"
      using True r by (rule runs_until_no_improvement_Suc)
    moreover have "total_iterations (inter_loop s m st) = total_iterations st + int (Suc k)"
      using t by (simp add: inter_loop_continue [OF c] inter_pass_counters)
    moreover have "iterations_without_improvement (inter_loop s m st) = 1"
      using w by (simp add: inter_loop_continue [OF c])
    ultimately show ?thesis by blast
  next
    case False
    then have stop: "inter_loop s m st = inter_pass s st"
      by (simp add: inter_loop_continue [OF c] inter_loop_stop)
    have "inter_loop s m st = (inter_pass s ^^ 1) st"
      using stop by simp
    moreover have "runs_until_no_improvement (inter_pass s) st 1"
      using False by (rule runs_until_no_improvement_one)
    moreover have "total_iterations (inter_loop s m st) = total_iterations st + int 1"
      using stop by (simp add: inter_pass_counters)
    moreover have "iterations_without_improvement (inter_loop s m st) = 1"
      using stop False "1.prems"(3) by (simp add: inter_pass_counters)
    ultimately show ?thesis by blast
  qed
qed

lemma length_compute_distance_matrix [simp]:
  "length (compute_distance_matrix dep custs) = length custs + 1"
  by (simp add: compute_distance_matrix_def Let_def)

text \<open>The instance and the initial routes of the source's \<open>main()\<close>.\<close>

definition example_solver :: TwoOptVRP where
  "example_solver =
     TwoOptVRP_init (0, 0) [(4, 4), (6, 2), (8, 6), (2, 8), (10, 4), (12, 2)] [3, 5, 2, 4, 6, 3] 10"

definition example_routes :: "route list" where
  "example_routes = [[0, 2, 3], [1, 4], [5]]"

lemma example_ok: "instance_ok example_solver"
  by (simp add: example_solver_def instance_ok_init)

lemma example_in_range: "routes_in_range example_solver example_routes"
  by (simp add: example_solver_def example_routes_def routes_in_range_def TwoOptVRP_init_def)

text \<open>
  A second instance, with all points on the x axis so that every distance is a rational
  number: customers 0, 2 and 3 lie at 1, -1 and 2, and the route \<open>[0, 2, 3]\<close> of
  length 8 is shortened to 6 by reversing its last two customers.
\<close>

lemma euclidean_distance_on_axis [simp]:
  "euclidean_distance (x1, 0) (x2, 0) = \<bar>x1 - x2\<bar>"
  by (simp add: euclidean_distance_def)

definition line_solver :: TwoOptVRP where
  "line_solver = TwoOptVRP_init (0, 0) [(1, 0), (5, 0), (-1, 0), (2, 0)] [3, 5, 2, 4] 10"

lemma line_matrix:
  "distance_matrix line_solver
     = [[0, 1, 5, 1, 2], [1, 0, 4, 2, 1], [5, 4, 0, 6, 3], [1, 2, 6, 0, 3], [2, 1, 3, 3, 0]]"
  by (simp add: line_solver_def TwoOptVRP_init_def compute_distance_matrix_def Let_def)

lemma line_demands: "demands line_solver = [3, 5, 2, 4]" "vehicle_capacity line_solver = 10"
  by (simp_all add: line_solver_def TwoOptVRP_init_def)

lemma line_route_distance:
  "calculate_route_distance line_solver [0, 2, 3] = 8"
  "calculate_route_distance line_solver [0, 3, 2] = 6"
  by (simp_all add: calculate_route_distance_def line_matrix)

lemma line_pairs: "two_opt_pairs (Suc (Suc (Suc 0))) = [(0, 2)]"
  by (simp add: two_opt_pairs_def upt_rec)

lemma line_improve: "improve_route_2opt line_solver [0, 2, 3] = ([0, 3, 2], 2)"
  by (simp add: improve_route_2opt_def line_pairs two_opt_step_def reverse_segment_def
      is_route_feasible_def route_load_def line_demands line_route_distance Let_def)

lemma line_pass:
  "improve_pass line_solver (initial_state line_solver [[0, 2, 3]])
     = \<lparr>current_routes = [[0, 3, 2]], current_distance = 6, improvement_found = True,
        iterations_without_improvement = 0, total_iterations = 1\<rparr>"
  by (simp add: improve_pass_def initial_state_def enumerate_eq_zip line_improve
      calculate_total_distance_def line_route_distance)

lemma nearest_step_cases:
  "nearest_step s l p nearest c = nearest
   \<or> (\<exists>d. nearest_step s l p nearest c = Some (c, d) \<and> l + demands s ! c \<le> vehicle_capacity s)"
  by (auto simp: nearest_step_def Let_def split: option.splits)

lemma foldl_nearest_step:
  "foldl (nearest_step s l p) nearest xs = nearest
   \<or> (\<exists>c d. foldl (nearest_step s l p) nearest xs = Some (c, d) \<and> c \<in> set xs
          \<and> l + demands s ! c \<le> vehicle_capacity s)"
proof (induction xs arbitrary: nearest)
  case Nil
  then show ?case by simp
next
  case (Cons x xs)
  from Cons.IH [of "nearest_step s l p nearest x"] nearest_step_cases [of s l p nearest x]
  show ?case by auto
qed

lemma find_nearest_Some:
  assumes "find_nearest s unvisited l p = Some (c, d)"
  shows "c \<in> set unvisited \<and> l + demands s ! c \<le> vehicle_capacity s"
  using foldl_nearest_step [of s l p None unvisited] assms
  by (auto simp: find_nearest_def)

termination construct_loop
proof (relation "measure (\<lambda>(s, unvisited, route, l, p, d). length unvisited)")
  show "wf (measure (\<lambda>(s, unvisited, route, l, p, d). length unvisited))" by simp
next
  fix s :: "'a TwoOptVRP_scheme" and unvisited route l p d x2 x y
  assume "unvisited \<noteq> []" and "find_nearest s unvisited l p = Some x2" and "(x, y) = x2"
  then have "x \<in> set unvisited" using find_nearest_Some [of s unvisited l p x y] by simp
  then have "length (removeAll x unvisited) < length unvisited" by (rule length_removeAll_less)
  then show "((s, removeAll x unvisited, route @ [x], l + demands s ! x, x + 1, d + y),
              (s, unvisited, route, l, p, d))
             \<in> measure (\<lambda>(s, unvisited, route, l, p, d). length unvisited)"
    by simp
qed

declare construct_loop.simps [simp del] nearest_neighbor_loop.simps [simp del]

lemma route_load_append: "route_load s (a @ b) = route_load s a + route_load s b"
  by (simp add: route_load_def)

lemma route_load_rev: "route_load s (rev a) = route_load s a"
  by (rule route_load_mset) simp

lemma construct_loop_load:
  assumes "construct_loop s u route l p d = (u', route', l', p', d')"
    and "route_load s route = l" and "route \<noteq> [] \<longrightarrow> l \<le> vehicle_capacity s"
  shows "route_load s route' = l' \<and> (route' \<noteq> [] \<longrightarrow> l' \<le> vehicle_capacity s)"
  using assms
proof (induction s u route l p d rule: construct_loop.induct)
  case (1 s u route l p d)
  show ?case
  proof (cases "u = []")
    case True
    then show ?thesis using "1.prems" by (simp add: construct_loop.simps)
  next
    case False
    show ?thesis
    proof (cases "find_nearest s u l p")
      case None
      then show ?thesis using False "1.prems" by (simp add: construct_loop.simps)
    next
      case (Some x)
      obtain c dc where x: "x = (c, dc)" by (cases x) auto
      from find_nearest_Some [OF Some [unfolded x]]
      have fit: "l + demands s ! c \<le> vehicle_capacity s" by simp
      have call: "construct_loop s (removeAll c u) (route @ [c]) (l + demands s ! c) (c + 1) (d + dc)
                    = (u', route', l', p', d')"
        using "1.prems"(1) False Some x by (simp add: construct_loop.simps)
      have "route_load s (route @ [c]) = l + demands s ! c"
        using "1.prems"(2) by (simp add: route_load_append) (simp add: route_load_def)
      from "1.IH" [OF False Some x [symmetric] call this] fit
      show ?thesis by simp
    qed
  qed
qed

lemma construct_loop_partition:
  assumes "construct_loop s u route l p d = (u', route', l', p', d')"
    and "distinct (route @ u)"
  shows "distinct (route' @ u') \<and> set (route' @ u') = set (route @ u)"
  using assms
proof (induction s u route l p d rule: construct_loop.induct)
  case (1 s u route l p d)
  show ?case
  proof (cases "u = []")
    case True
    then show ?thesis using "1.prems" by (simp add: construct_loop.simps)
  next
    case False
    show ?thesis
    proof (cases "find_nearest s u l p")
      case None
      then show ?thesis using False "1.prems" by (simp add: construct_loop.simps)
    next
      case (Some x)
      obtain c dc where x: "x = (c, dc)" by (cases x) auto
      from find_nearest_Some [OF Some [unfolded x]]
      have cu: "c \<in> set u" by simp
      have call: "construct_loop s (removeAll c u) (route @ [c]) (l + demands s ! c) (c + 1) (d + dc)
                    = (u', route', l', p', d')"
        using "1.prems"(1) False Some x by (simp add: construct_loop.simps)
      have d2: "distinct ((route @ [c]) @ removeAll c u)"
        using "1.prems"(2) cu by (auto simp: distinct_removeAll)
      have s2: "set ((route @ [c]) @ removeAll c u) = set (route @ u)"
        using cu by auto
      from "1.IH" [OF False Some x [symmetric] call d2] s2
      show ?thesis by simp
    qed
  qed
qed

lemma construct_route_props:
  assumes "construct_route s u = (route, rdist, u')" and "distinct u"
  shows "distinct (route @ u')" and "set (route @ u') = set u"
    and "route \<noteq> [] \<longrightarrow> is_route_feasible s route"
proof -
  have "distinct (route @ u') \<and> set (route @ u') = set u
        \<and> (route \<noteq> [] \<longrightarrow> is_route_feasible s route)"
  proof (cases "u = []")
    case True
    then show ?thesis using assms by (simp add: construct_route_def)
  next
    case False
    obtain u2 r2 l2 p2 d2 where cl: "construct_loop s u [] 0 0 0 = (u2, r2, l2, p2, d2)"
      by (metis prod_cases5)
    from assms(1) False cl have r: "route = r2" and u: "u' = u2"
      by (simp_all add: construct_route_def)
    from construct_loop_partition [OF cl] assms(2)
    have "distinct (r2 @ u2) \<and> set (r2 @ u2) = set u" by simp
    moreover from construct_loop_load [OF cl]
    have "r2 \<noteq> [] \<longrightarrow> route_load s r2 \<le> vehicle_capacity s"
      by (simp add: route_load_def)
    ultimately show ?thesis by (simp add: r u is_route_feasible_def)
  qed
  then show "distinct (route @ u')" and "set (route @ u') = set u"
    and "route \<noteq> [] \<longrightarrow> is_route_feasible s route" by simp_all
qed

lemma nearest_neighbor_loop_props:
  assumes "nearest_neighbor_loop s u rts td vc = (u', rts', td')"
    and "distinct (concat rts @ u)" and "\<forall>r\<in>set rts. is_route_feasible s r"
  shows "distinct (concat rts' @ u') \<and> set (concat rts' @ u') = set (concat rts @ u)
         \<and> (\<forall>r\<in>set rts'. is_route_feasible s r)"
  using assms
proof (induction s u rts td vc rule: nearest_neighbor_loop.induct)
  case (1 s u rts td vc)
  show ?case
  proof (cases "u \<noteq> [] \<and> vc < num_vehicles s")
    case False
    then have "nearest_neighbor_loop s u rts td vc = (u, rts, td)"
      by (subst nearest_neighbor_loop.simps) auto
    then show ?thesis using "1.prems" by simp
  next
    case True
    obtain route rd u2 where cr: "construct_route s u = (route, rd, u2)"
      by (metis prod_cases3)
    have du: "distinct u" using "1.prems"(2) by simp
    note p = construct_route_props [OF cr du]
    show ?thesis
    proof (cases "route = []")
      case e: True
      then have "nearest_neighbor_loop s u rts td vc = (u2, rts, td)"
        using True cr by (subst nearest_neighbor_loop.simps) simp
      then have "u' = u2" "rts' = rts" using "1.prems"(1) by simp_all
      then show ?thesis using p e "1.prems" by auto
    next
      case ne: False
      then have call: "nearest_neighbor_loop s u2 (rts @ [route]) (td + rd) (vc + 1) = (u', rts', td')"
        using True cr "1.prems"(1) by (subst (asm) nearest_neighbor_loop.simps) simp
      have d2: "distinct (concat (rts @ [route]) @ u2)"
        using "1.prems"(2) p(1) p(2) by auto
      have f2: "\<forall>r\<in>set (rts @ [route]). is_route_feasible s r"
        using "1.prems"(3) p(3) ne by simp
      have s2: "set (concat (rts @ [route]) @ u2) = set (concat rts @ u)"
        using p(2) by auto
      from "1.IH" [OF True cr [symmetric] refl ne call d2 f2] s2
      show ?thesis by simp
    qed
  qed
qed

lemma nearest_neighbor_solve_props:
  "distinct (concat (routes (nearest_neighbor_solve s)) @ unvisited_customers (nearest_neighbor_solve s))"
  "set (concat (routes (nearest_neighbor_solve s)) @ unvisited_customers (nearest_neighbor_solve s))
     = {0..<num_customers s}"
  "\<forall>r\<in>set (routes (nearest_neighbor_solve s)). is_route_feasible s r"
proof -
  obtain u rts td where l: "nearest_neighbor_loop s [0..<num_customers s] [] 0 0 = (u, rts, td)"
    by (metis prod_cases3)
  from nearest_neighbor_loop_props [OF l]
  have "distinct (concat rts @ u) \<and> set (concat rts @ u) = {0..<num_customers s}
        \<and> (\<forall>r\<in>set rts. is_route_feasible s r)" by simp
  then show "distinct (concat (routes (nearest_neighbor_solve s)) @ unvisited_customers (nearest_neighbor_solve s))"
    "set (concat (routes (nearest_neighbor_solve s)) @ unvisited_customers (nearest_neighbor_solve s))
       = {0..<num_customers s}"
    "\<forall>r\<in>set (routes (nearest_neighbor_solve s)). is_route_feasible s r"
    by (simp_all add: nearest_neighbor_solve_def l)
qed

subsection \<open>The invariant of the merging loop\<close>

lemma sum_list_map_update_pair:
  fixes f :: "'a \<Rightarrow> 'b::comm_monoid_add"
  assumes "i \<noteq> j" and "i < length xs" and "j < length xs"
  shows "sum_list (map f (xs[i := x, j := y])) + (f (xs ! i) + f (xs ! j))
           = sum_list (map f xs) + (f x + f y)"
proof -
  have j: "j < length (xs[i := x])" using assms by simp
  have nj: "xs[i := x] ! j = xs ! j" using assms by simp
  have "sum_list (map f (xs[i := x, j := y])) + f (xs ! j) + f (xs ! i)
          = sum_list (map f (xs[i := x])) + f y + f (xs ! i)"
    using sum_list_map_update [OF j, of f y] by (simp add: nj)
  also have "\<dots> = sum_list (map f (xs[i := x])) + f (xs ! i) + f y"
    by (simp add: ac_simps)
  also have "\<dots> = sum_list (map f xs) + f x + f y"
    using sum_list_map_update [OF assms(2), of f x] by simp
  finally show ?thesis by (simp add: ac_simps)
qed

lemma mset_merge_routes:
  "mset (fst (merge_routes s route1 route2 ci cj)) = mset route1 + mset route2"
  by (auto simp: merge_routes_def Let_def)

lemma snd_merge_routes:
  "snd (merge_routes s route1 route2 ci cj) = route_load s (fst (merge_routes s route1 route2 ci cj))"
  by (simp add: merge_routes_def Let_def)


lemma foldl_map_upd:
  "foldl (\<lambda>m c. m(c \<mapsto> r)) m0 cs c' = (if c' \<in> set cs then Some r else m0 c')"
  by (induction cs arbitrary: m0) auto

definition merge_inv :: "'a TwoOptVRP_scheme \<Rightarrow> merge_state \<Rightarrow> bool" where
  "merge_inv s st \<longleftrightarrow>
     length (sv_routes st) = num_customers s
     \<and> length (route_loads st) = num_customers s
     \<and> (\<forall>c<num_customers s. \<exists>r<num_customers s.
            customer_to_route st c = Some r \<and> c \<in> set (sv_routes st ! r))
     \<and> (\<forall>r<num_customers s. route_loads st ! r = route_load s (sv_routes st ! r))
     \<and> mset (concat (sv_routes st)) = mset [0..<num_customers s]"

lemma map_of_identity:
  "map_of (map (\<lambda>i. (i, i)) [0..<n]) c = (if c < n then Some c else None)"
proof (cases "c < n")
  case True
  then have "(c, c) \<in> set (map (\<lambda>i. (i, i)) [0..<n])" by auto
  moreover have "distinct (map fst (map (\<lambda>i. (i, i)) [0..<n]))" by (simp add: comp_def)
  ultimately show ?thesis using True by simp
next
  case False
  then have "c \<notin> fst ` set (map (\<lambda>i. (i, i)) [0..<n])" by auto
  then show ?thesis using False by (simp add: map_of_eq_None_iff)
qed

lemma concat_singletons: "concat (map (\<lambda>i. [i]) xs) = xs"
  by (induction xs) auto

lemma merge_inv_initial: "merge_inv s (initial_merge_state s)"
  by (simp add: merge_inv_def initial_merge_state_def map_of_identity concat_singletons route_load_def)

text \<open>The state a merge produces, as \<open>process_pair\<close> builds it.\<close>

definition merged_state :: "'a TwoOptVRP_scheme \<Rightarrow> merge_state \<Rightarrow> nat \<Rightarrow> nat \<Rightarrow> merge_state" where
  "merged_state s st ci cj =
     (let route_i = the (customer_to_route st ci); route_j = the (customer_to_route st cj);
          merged = merge_routes s (sv_routes st ! route_i) (sv_routes st ! route_j) ci cj
      in \<lparr>sv_routes = (sv_routes st)[route_i := fst merged, route_j := []],
          route_loads = (route_loads st)[route_i := snd merged, route_j := 0],
          customer_to_route =
            foldl (\<lambda>m customer. m(customer \<mapsto> route_i)) (customer_to_route st)
              (sv_routes st ! route_j)\<rparr>)"

lemma process_pair_cases:
  "process_pair s st ci cj = st \<or> 
   (the (customer_to_route st ci) \<noteq> the (customer_to_route st cj)
    \<and> can_merge_routes s (sv_routes st ! the (customer_to_route st ci))
          (sv_routes st ! the (customer_to_route st cj))
          (route_loads st ! the (customer_to_route st ci))
          (route_loads st ! the (customer_to_route st cj)) ci cj
    \<and> process_pair s st ci cj = merged_state s st ci cj)"
  by (simp add: process_pair_def merged_state_def Let_def)

lemma merged_state_inv:
  assumes inv: "merge_inv s st" and ci: "ci < num_customers s" and cj: "cj < num_customers s"
    and ne: "the (customer_to_route st ci) \<noteq> the (customer_to_route st cj)"
  shows "merge_inv s (merged_state s st ci cj)"
proof -
  let ?N = "num_customers s"
  let ?ri = "the (customer_to_route st ci)" and ?rj = "the (customer_to_route st cj)"
  let ?R = "sv_routes st"
  let ?m = "merge_routes s (?R ! ?ri) (?R ! ?rj) ci cj"
  let ?R' = "?R[?ri := fst ?m, ?rj := []]"
  from inv have len: "length ?R = ?N" and lenl: "length (route_loads st) = ?N"
    and c2r: "\<forall>c<?N. \<exists>r<?N. customer_to_route st c = Some r \<and> c \<in> set (?R ! r)"
    and loads: "\<forall>r<?N. route_loads st ! r = route_load s (?R ! r)"
    and part: "mset (concat ?R) = mset [0..<?N]"
    by (simp_all add: merge_inv_def)
  from c2r ci have ri: "?ri < ?N" by auto
  from c2r cj have rj: "?rj < ?N" by auto
  have st': "sv_routes (merged_state s st ci cj) = ?R'"
    "route_loads (merged_state s st ci cj) = (route_loads st)[?ri := snd ?m, ?rj := 0]"
    "customer_to_route (merged_state s st ci cj)
       = foldl (\<lambda>m customer. m(customer \<mapsto> ?ri)) (customer_to_route st) (?R ! ?rj)"
    by (simp_all add: merged_state_def Let_def)
  have at_i: "?R' ! ?ri = fst ?m" using ne ri len by simp
  have at_j: "?R' ! ?rj = []" using rj len by simp
  have at_o: "?R' ! r = ?R ! r" if "r \<noteq> ?ri" "r \<noteq> ?rj" for r using that by simp
  have "sum_list (map mset ?R') + (mset (?R ! ?ri) + mset (?R ! ?rj))
          = sum_list (map mset ?R) + (mset (fst ?m) + mset [])"
    using ne ri rj len by (intro sum_list_map_update_pair) simp_all
  then have p': "mset (concat ?R') = mset [0..<?N]"
    using part by (simp add: mset_concat mset_merge_routes)
  have c': "\<exists>r<?N. customer_to_route (merged_state s st ci cj) c = Some r \<and> c \<in> set (?R' ! r)"
    if "c < ?N" for c
  proof -
    from c2r that obtain r where r: "r < ?N" "customer_to_route st c = Some r" "c \<in> set (?R ! r)"
      by blast
    show ?thesis
    proof (cases "c \<in> set (?R ! ?rj)")
      case True
      have "c \<in># mset (fst ?m)" using True by (simp add: mset_merge_routes)
      then have "c \<in> set (fst ?m)" by simp
      then show ?thesis using True ri at_i by (simp add: st' foldl_map_upd)
    next
      case False
      then have nrj: "r \<noteq> ?rj" using r by auto
      show ?thesis
      proof (cases "r = ?ri")
        case True
        have "c \<in># mset (fst ?m)" using r True by (simp add: mset_merge_routes)
        then have "c \<in> set (fst ?m)" by simp
        then show ?thesis using False r True at_i by (simp add: st' foldl_map_upd)
      next
        case ne': False
        then show ?thesis using False r nrj at_o [OF ne' nrj] by (simp add: st' foldl_map_upd)
      qed
    qed
  qed
  have l': "route_loads (merged_state s st ci cj) ! r = route_load s (?R' ! r)" if "r < ?N" for r
  proof (cases "r = ?rj")
    case True
    then show ?thesis using rj lenl at_j by (simp add: st' route_load_def)
  next
    case nj: False
    show ?thesis
    proof (cases "r = ?ri")
      case True
      then show ?thesis using ri lenl ne at_i by (simp add: st' snd_merge_routes)
    next
      case False
      then show ?thesis using nj that loads at_o [OF False nj] by (simp add: st')
    qed
  qed
  show ?thesis
    unfolding merge_inv_def
    using len lenl p' c' l' by (simp add: st')
qed

lemma process_pair_inv:
  assumes "merge_inv s st" and "ci < num_customers s" and "cj < num_customers s"
  shows "merge_inv s (process_pair s st ci cj)"
  using process_pair_cases [of s st ci cj] merged_state_inv [OF assms] assms(1) by auto

lemma merge_loop_inv:
  assumes "merge_inv s st" and "\<forall>e\<in>set es. fst e < num_customers s \<and> fst (snd e) < num_customers s"
  shows "merge_inv s (merge_loop s st es)"
  using assms
proof (induction es arbitrary: st)
  case Nil
  then show ?case by simp
next
  case (Cons e es)
  obtain ci cj v where e: "e = (ci, cj, v)" by (cases e) auto
  have "merge_inv s (process_pair s st ci cj)"
    using Cons.prems e by (intro process_pair_inv) simp_all
  then have "merge_inv s (merge_loop s (process_pair s st ci cj) es)"
    using Cons.prems(2) by (intro Cons.IH) simp_all
  then show ?case using Cons.prems(1) e by simp
qed

lemma savings_ok_init:
  "length dems = length custs \<Longrightarrow> savings_ok (SavingsAlgorithmVRP_init dep custs dems cap nv)"
  by (simp add: savings_ok_def instance_ok_def SavingsAlgorithmVRP_init_def TwoOptVRP_init_def
      calculate_savings_def savings_pairs_def savings_value_def)

lemma compute_distance_matrix_nth:
  assumes "a \<le> length custs" and "b \<le> length custs"
  shows "compute_distance_matrix dep custs ! a ! b
           = (if a \<noteq> b then euclidean_distance ((dep # custs) ! a) ((dep # custs) ! b) else 0)"
  using assms by (simp add: compute_distance_matrix_def Let_def less_Suc_eq_le del: upt_Suc)

lemma savings_value_euclidean:
  assumes "instance_ok s" and "i < j" and "j < num_customers s"
  shows "savings_value s i j
           = euclidean_distance (depot s) (customers s ! i)
             + euclidean_distance (depot s) (customers s ! j)
             - euclidean_distance (customers s ! i) (customers s ! j)"
proof -
  from assms have n: "num_customers s = length (customers s)"
    and m: "distance_matrix s = compute_distance_matrix (depot s) (customers s)"
    by (simp_all add: instance_ok_def)
  have "i + 1 \<le> length (customers s)" "j + 1 \<le> length (customers s)" "0 \<le> length (customers s)"
    using assms(2,3) n by simp_all
  then show ?thesis
    using assms(2) by (simp add: savings_value_def m compute_distance_matrix_nth)
qed

lemma set_savings_pairs:
  "e \<in> set (savings_pairs s) \<Longrightarrow>
     fst e < fst (snd e) \<and> fst (snd e) < num_customers s
     \<and> snd (snd e) = savings_value s (fst e) (fst (snd e))"
  by (auto simp: savings_pairs_def)

lemma filter_eq_singleton:
  "distinct xs \<Longrightarrow> x \<in> set xs \<Longrightarrow> filter (\<lambda>y. y = x) xs = [x]"
  by (induction xs) (auto simp: filter_empty_conv)

lemma filter_savings_pairs:
  assumes "i < j" and "j < n"
  shows "filter (\<lambda>e. fst e = i \<and> fst (snd e) = j)
           (concat (map (\<lambda>a. map (\<lambda>b. (a, b, f a b)) [a + 1..<n]) [0..<n]))
         = [(i, j, f i j)]"
proof -
  have inner: "filter (\<lambda>e. fst e = i \<and> fst (snd e) = j) (map (\<lambda>b. (a, b, f a b)) bs)
                 = (if a = i then map (\<lambda>b. (a, b, f a b)) (filter (\<lambda>b. b = j) bs) else [])" for a bs
    by (induction bs) auto
  have one: "filter (\<lambda>b. b = j) [Suc i..<n] = [j]"
    using assms by (intro filter_eq_singleton) simp_all
  have outer: "concat (map (\<lambda>a. if a = i then g a else []) as) = concat (map g (filter (\<lambda>a. a = i) as))"
    for g :: "nat \<Rightarrow> (nat \<times> nat \<times> 'a) list" and as
    by (induction as) auto
  have onei: "filter (\<lambda>a. a = i) [0..<n] = [i]"
    using assms by (intro filter_eq_singleton) simp_all
  show ?thesis
    by (simp add: filter_concat comp_def inner outer onei one)
qed

lemma filter_sort_key: "filter P (sort_key f xs) = sort_key f (filter P xs)"
  by (induction xs) (auto simp: filter_insort filter_insort_triv sorted_sort_key)

lemma savings_entry_unique:
  assumes "i < j" and "j < num_customers s"
  shows "filter (\<lambda>e. fst e = i \<and> fst (snd e) = j) (calculate_savings s) = [(i, j, savings_value s i j)]"
  using filter_savings_pairs [OF assms, of "savings_value s"]
  by (simp add: calculate_savings_def filter_sort_key savings_pairs_def)

lemma savings_entries_valid:
  "\<forall>e\<in>set (calculate_savings s). fst e < fst (snd e) \<and> fst (snd e) < num_customers s
       \<and> snd (snd e) = savings_value s (fst e) (fst (snd e))"
  using set_savings_pairs [of _ s] by (simp add: calculate_savings_def)

lemma savings_sorted_descending:
  "sorted_wrt (\<lambda>a b. snd (snd a) \<ge> snd (snd b)) (calculate_savings s)"
proof -
  have "sorted (map (\<lambda>e. - snd (snd e)) (calculate_savings s))"
    unfolding calculate_savings_def by (rule sorted_sort_key)
  then show ?thesis by (simp add: sorted_map)
qed

lemma merge_loop_takeWhile:
  "merge_loop s st es
     = foldl (\<lambda>st e. process_pair s st (fst e) (fst (snd e))) st (takeWhile (\<lambda>e. 0 < snd (snd e)) es)"
proof (induction es arbitrary: st)
  case Nil
  then show ?case by simp
next
  case (Cons e es)
  obtain ci cj v where e: "e = (ci, cj, v)" by (cases e) auto
  show ?case using Cons.IH by (simp add: e not_le)
qed

text \<open>
  The state of the merging loop once it has gone through the first \<open>n\<close> entries of the
  savings list (or has stopped before).
\<close>

definition state_after :: "'a SavingsAlgorithmVRP_scheme \<Rightarrow> nat \<Rightarrow> merge_state" where
  "state_after s n = merge_loop s (initial_merge_state s) (take n (savings_list s))"

lemma state_after_inv:
  assumes "savings_ok s"
  shows "merge_inv s (state_after s n)"
  unfolding state_after_def
proof (rule merge_loop_inv [OF merge_inv_initial])
  have "set (take n (savings_list s)) \<subseteq> set (calculate_savings s)"
    using assms by (simp add: savings_ok_def set_take_subset)
  then show "\<forall>e\<in>set (take n (savings_list s)). fst e < num_customers s \<and> fst (snd e) < num_customers s"
    using savings_entries_valid [of s] by fastforce
qed

lemma can_merge_routes_iff:
  assumes "route1 \<noteq> []" and "route2 \<noteq> []"
  shows "can_merge_routes s route1 route2 load1 load2 ci cj \<longleftrightarrow>
           load1 + load2 \<le> vehicle_capacity s
           \<and> (hd route1 = ci \<or> last route1 = ci) \<and> (hd route2 = cj \<or> last route2 = cj)"
  using assms by (auto simp: can_merge_routes_def Let_def hd_conv_nth)

lemma process_pair_eq:
  assumes "customer_to_route st ci = Some ri" and "customer_to_route st cj = Some rj"
  shows "process_pair s st ci cj
           = (if ri \<noteq> rj \<and> can_merge_routes s (sv_routes st ! ri) (sv_routes st ! rj)
                              (route_loads st ! ri) (route_loads st ! rj) ci cj
              then merged_state s st ci cj else st)"
  using assms by (simp add: process_pair_def merged_state_def Let_def)

text \<open>The instance of the source's \<open>main()\<close>, for the two constructors.\<close>

definition example_savings :: SavingsAlgorithmVRP where
  "example_savings =
     SavingsAlgorithmVRP_init (0, 0) [(4, 4), (6, 2), (8, 6), (2, 8), (10, 4), (12, 2)]
       [3, 5, 2, 4, 6, 3] 10 3"

lemma example_savings_ok: "savings_ok example_savings"
  by (simp add: example_savings_def savings_ok_init)

lemma example_savings_size: "num_customers example_savings = 6"
  by (simp add: example_savings_def SavingsAlgorithmVRP_init_def)

text \<open>
  Two customers on the x axis at 1 and 2, demands 3 and 5, capacity 10: the one savings
  entry is \<open>(0, 1, 2)\<close>, and the two singleton routes are merged.
\<close>

definition axis_savings :: SavingsAlgorithmVRP where
  "axis_savings = SavingsAlgorithmVRP_init (0, 0) [(1, 0), (2, 0)] [3, 5] 10 3"

lemma axis_savings_ok: "savings_ok axis_savings"
  by (simp add: axis_savings_def savings_ok_init)

lemma axis_savings_fields:
  "num_customers axis_savings = 2" "vehicle_capacity axis_savings = 10"
  "demands axis_savings = [3, 5]"
  "distance_matrix axis_savings = [[0, 1, 2], [1, 0, 1], [2, 1, 0]]"
  by (simp_all add: axis_savings_def SavingsAlgorithmVRP_init_def compute_distance_matrix_def Let_def)

lemma axis_savings_list: "savings_list axis_savings = [(0, 1, 2)]"
  by (simp add: axis_savings_def SavingsAlgorithmVRP_init_def TwoOptVRP_init_def
      calculate_savings_def savings_pairs_def savings_value_def compute_distance_matrix_def Let_def)

lemma axis_state_after_0:
  "sv_routes (state_after axis_savings 0) = [[0], [1]]"
  "route_loads (state_after axis_savings 0) = [3, 5]"
  "customer_to_route (state_after axis_savings 0) 0 = Some 0"
  "customer_to_route (state_after axis_savings 0) 1 = Some 1"
  "customer_to_route (state_after axis_savings 0) (Suc 0) = Some 1"
  by (simp_all add: state_after_def initial_merge_state_def axis_savings_fields upt_rec)

subsection \<open>Loads and feasibility under the improver's moves\<close>







subsection \<open>The routes the savings constructor returns\<close>

lemma mset_concat_image: "mset (concat xss) = sum_mset (image_mset mset (mset xss))"
  by (induction xss) simp_all

lemma mset_concat_mono:
  assumes "mset xs \<subseteq># mset ys"
  shows "mset (concat xs) \<subseteq># mset (concat ys)"
proof -
  from assms obtain Z where "mset ys = mset xs + Z" by (auto simp: subset_mset.le_iff_add)
  then have "mset (concat ys) = mset (concat xs) + sum_mset (image_mset mset Z)"
    by (simp add: mset_concat_image)
  then show ?thesis by simp
qed

lemma distinct_mset_mono_list:
  assumes "mset xs \<subseteq># mset ys" and "distinct ys"
  shows "distinct xs"
proof -
  have "count (mset xs) a \<le> 1" for a
  proof -
    have "count (mset xs) a \<le> count (mset ys) a" using assms(1) by (rule mset_subset_eq_count)
    also have "\<dots> \<le> 1" using assms(2) by (simp add: distinct_count_atmost_1)
    finally show ?thesis .
  qed
  then show ?thesis unfolding distinct_count_atmost_1
    by (metis count_mset_0_iff in_multiset_in_set le_antisym less_one not_le count_greater_eq_one_iff)
qed

lemma py_prefix_take: "\<exists>n. py_prefix k xs = take n xs"
  by (auto simp: py_prefix_def)

lemma mset_take_subset: "mset (take n xs) \<subseteq># mset xs"
  by (metis append_take_drop_id mset_append mset_subset_eq_add_left)

lemma apply_vehicle_limit_subset: "mset (apply_vehicle_limit s xs) \<subseteq># mset xs"
proof (cases "int (length xs) > num_vehicles s")
  case False
  then show ?thesis by (simp add: apply_vehicle_limit_def)
next
  case True
  let ?info = "map (\<lambda>route. (route, calculate_route_distance s route)) xs"
  obtain n where n: "py_prefix (num_vehicles s) (sort_key snd ?info) = take n (sort_key snd ?info)"
    using py_prefix_take by blast
  have "mset (map fst (take n (sort_key snd ?info))) \<subseteq># mset (map fst (sort_key snd ?info))"
    by (simp add: take_map [symmetric] mset_take_subset del: mset_map)
  also have "mset (map fst (sort_key snd ?info)) = mset xs"
    by (simp add: multiset.map_comp comp_def)
  finally show ?thesis using True n by (simp add: apply_vehicle_limit_def Let_def)
qed





lemma savings_entries_in_range:
  assumes "savings_ok s"
  shows "\<forall>e\<in>set (savings_list s). fst e < num_customers s \<and> fst (snd e) < num_customers s"
  using assms savings_entries_valid [of s] by (fastforce simp: savings_ok_def)

lemma savings_solve_routes:
  "routes (savings_solve s)
     = apply_vehicle_limit s (filter (\<lambda>route. route \<noteq> [])
         (sv_routes (merge_loop s (initial_merge_state s) (savings_list s))))"
  "unvisited_customers (savings_solve s)
     = filter (\<lambda>i. i \<notin> set (concat (routes (savings_solve s)))) [0..<num_customers s]"
  by (simp_all add: savings_solve_def Let_def)

lemma savings_routes_subset:
  "mset (routes (savings_solve s))
     \<subseteq># mset (sv_routes (merge_loop s (initial_merge_state s) (savings_list s)))"
proof -
  let ?R = "sv_routes (merge_loop s (initial_merge_state s) (savings_list s))"
  have "mset (routes (savings_solve s)) \<subseteq># mset (filter (\<lambda>route. route \<noteq> []) ?R)"
    unfolding savings_solve_routes by (rule apply_vehicle_limit_subset)
  also have "\<dots> \<subseteq># mset ?R" by simp
  finally show ?thesis .
qed

lemma savings_solve_partition:
  assumes "savings_ok s"
  shows "distinct (concat (routes (savings_solve s)) @ unvisited_customers (savings_solve s))"
    and "set (concat (routes (savings_solve s)) @ unvisited_customers (savings_solve s))
           = {0..<num_customers s}"
proof -
  let ?st = "merge_loop s (initial_merge_state s) (savings_list s)"
  have "merge_inv s ?st"
    using merge_inv_initial savings_entries_in_range [OF assms] by (rule merge_loop_inv)
  then have part: "mset (concat (sv_routes ?st)) = mset [0..<num_customers s]"
    by (simp add: merge_inv_def)
  have sub: "mset (concat (routes (savings_solve s))) \<subseteq># mset [0..<num_customers s]"
    using mset_concat_mono [OF savings_routes_subset [of s]] part by simp
  then have d: "distinct (concat (routes (savings_solve s)))"
    by (rule distinct_mset_mono_list) simp
  from sub have "set_mset (mset (concat (routes (savings_solve s)))) \<subseteq> set_mset (mset [0..<num_customers s])"
    by (rule set_mset_mono)
  then have ss: "set (concat (routes (savings_solve s))) \<subseteq> {0..<num_customers s}" by simp
  show "distinct (concat (routes (savings_solve s)) @ unvisited_customers (savings_solve s))"
    using d by (auto simp: savings_solve_routes(2))
  show "set (concat (routes (savings_solve s)) @ unvisited_customers (savings_solve s))
           = {0..<num_customers s}"
    using ss by (auto simp: savings_solve_routes(2))
qed


definition example_nn :: NearestNeighborVRP where
  "example_nn =
     NearestNeighborVRP_init (0, 0) [(4, 4), (6, 2), (8, 6), (2, 8), (10, 4), (12, 2)]
       [3, 5, 2, 4, 6, 3] 10 3"

lemma example_nn_ok: "instance_ok example_nn"
  by (simp add: example_nn_def NearestNeighborVRP_init_def instance_ok_def)




text \<open>
  The savings constructor starts from one route per customer and tests the capacity only
  when it merges: a customer whose demand alone exceeds the capacity is returned in a
  route of its own, as served. One customer of demand 12, capacity 10:
\<close>

definition oversize_savings :: SavingsAlgorithmVRP where
  "oversize_savings = SavingsAlgorithmVRP_init (0, 0) [(1, 0)] [12] 10 1"

lemma oversize_savings_fields:
  "savings_list oversize_savings = []" "num_customers oversize_savings = 1"
  "num_vehicles oversize_savings = 1" "demands oversize_savings = [12]"
  "vehicle_capacity oversize_savings = 10"
  by (simp_all add: oversize_savings_def SavingsAlgorithmVRP_init_def TwoOptVRP_init_def
      calculate_savings_def savings_pairs_def)

lemma savings_returns_oversize_customer:
  "routes (savings_solve oversize_savings) = [[0]]
   \<and> unvisited_customers (savings_solve oversize_savings) = []
   \<and> feasible (savings_solve oversize_savings)
   \<and> route_load oversize_savings [0] = 12
   \<and> vehicle_capacity oversize_savings = 10"
  by (simp add: savings_solve_def oversize_savings_fields initial_merge_state_def
      apply_vehicle_limit_def route_load_def Let_def)

subsection \<open>Stores that only grow\<close>

definition extends :: "store \<Rightarrow> store \<Rightarrow> bool" where
  "extends h h' \<longleftrightarrow> (\<exists>zs. h' = h @ zs)"

lemma extends_refl: "extends h h"
  by (simp add: extends_def)

lemma extends_trans: "extends a b \<Longrightarrow> extends b c \<Longrightarrow> extends a c"
  by (auto simp: extends_def)

lemma extends_append: "extends h (h @ zs)"
  by (simp add: extends_def)

lemma extends_length: "extends h h' \<Longrightarrow> length h \<le> length h'"
  by (auto simp: extends_def)

lemma extends_nth: "extends h h' \<Longrightarrow> a < length h \<Longrightarrow> h' ! a = h ! a"
  by (auto simp: extends_def nth_append)

lemma extends_ints_at: "extends h h' \<Longrightarrow> a < length h \<Longrightarrow> ints_at h' a = ints_at h a"
  by (simp add: ints_at_def extends_nth)

lemma extends_refs_at: "extends h h' \<Longrightarrow> a < length h \<Longrightarrow> refs_at h' a = refs_at h a"
  by (simp add: refs_at_def extends_nth)

lemma extends_update: "extends h0 h \<Longrightarrow> length h0 \<le> a \<Longrightarrow> extends h0 (h[a := x])"
  by (auto simp: extends_def list_update_append)

lemma list_copy_props:
  assumes "list_copy h a = (h1, b)"
  shows "extends h h1" and "b = length h" and "length h1 = Suc (length h)"
    and "a < length h \<Longrightarrow> ints_at h1 b = ints_at h a"
  using assms by (auto simp: list_copy_def extends_def ints_at_def nth_append)

subsection \<open>The store-level 2-opt computes what the value-level one does\<close>

lemma two_opt_step_h_sim:
  assumes "two_opt_step_h s route d (h, best, imp) ij = (h', best', imp')"
    and "route < length h" and "best < length h"
  shows "extends h h'" and "best' < length h'"
    and "(ints_at h' best', imp') = two_opt_step s (ints_at h route) d (ints_at h best, imp) ij"
proof -
  let ?h1 = "h @ [h ! route]"
  let ?h2 = "reverse_slice ?h1 (length h) (fst ij) (snd ij)"
  have e1: "extends h ?h1" by (rule extends_append)
  have h2: "?h2 = h @ [IntList (reverse_segment (ints_at h route) (fst ij) (snd ij))]"
    using assms(2) by (simp add: reverse_slice_def ints_at_def nth_append)
  have e2: "extends h ?h2" unfolding h2 by (rule extends_append)
  have new: "ints_at ?h2 (length h) = reverse_segment (ints_at h route) (fst ij) (snd ij)"
    unfolding h2 by (simp add: ints_at_def)
  have old: "ints_at ?h2 best = ints_at h best"
    using e2 assms(3) by (rule extends_ints_at)
  have len: "length ?h2 = Suc (length h)" unfolding h2 by simp
  from assms(1) have r: "(h', best', imp') =
      (if \<not> is_route_feasible s (ints_at ?h2 (length h)) then (?h2, best, imp)
       else if d - calculate_route_distance s (ints_at ?h2 (length h)) > imp
            then (?h2, length h, d - calculate_route_distance s (ints_at ?h2 (length h)))
            else (?h2, best, imp))"
    by (auto simp: two_opt_step_h_def list_copy_def Let_def split: if_splits)
  then have hh: "h' = ?h2" by (simp split: if_splits)
  show "extends h h'" using e2 hh by simp
  show "best' < length h'" using r assms(3) len by (auto split: if_splits)
  show "(ints_at h' best', imp') = two_opt_step s (ints_at h route) d (ints_at h best, imp) ij"
    using r new old by (auto simp: two_opt_step_def Let_def split: if_splits)
qed

lemma foldl_two_opt_step_h_sim:
  assumes "foldl (two_opt_step_h s route d) (h, best, imp) ps = (h', best', imp')"
    and "route < length hb" and "extends hb h" and "best < length h"
  shows "extends h h' \<and> best' < length h'
       \<and> (ints_at h' best', imp')
           = foldl (two_opt_step s (ints_at hb route) d) (ints_at h best, imp) ps"
  using assms
proof (induction ps arbitrary: h best imp)
  case Nil
  then show ?case by (simp add: extends_refl)
next
  case (Cons p ps)
  obtain h1 b1 i1 where st: "two_opt_step_h s route d (h, best, imp) p = (h1, b1, i1)"
    by (metis prod_cases3)
  have rl: "route < length h" using Cons.prems(2,3) extends_length by fastforce
  note sim = two_opt_step_h_sim [OF st rl Cons.prems(4)]
  have rt: "ints_at h route = ints_at hb route"
    using Cons.prems(3,2) by (rule extends_ints_at)
  have e: "extends hb h1" using Cons.prems(3) sim(1) by (rule extends_trans)
  from Cons.prems(1) st have "foldl (two_opt_step_h s route d) (h1, b1, i1) ps = (h', best', imp')"
    by simp
  from Cons.IH [OF this Cons.prems(2) e sim(2)]
  have "extends h1 h'" and "best' < length h'"
    and "(ints_at h' best', imp') = foldl (two_opt_step s (ints_at hb route) d) (ints_at h1 b1, i1) ps"
    by simp_all
  then show ?case using sim(1) sim(3) rt by (simp add: extends_trans)
qed

lemma improve_route_2opt_h_sim:
  assumes "improve_route_2opt_h s h route = (h', best, imp)" and "route < length h"
  shows "extends h h'" and "best < length h'"
    and "(ints_at h' best, imp) = improve_route_2opt s (ints_at h route)"
proof -
  let ?h1 = "h @ [h ! route]"
  have e1: "extends h ?h1" by (rule extends_append)
  have r1: "ints_at ?h1 route = ints_at h route" using e1 assms(2) by (rule extends_ints_at)
  have b1: "ints_at ?h1 (length h) = ints_at h route" by (simp add: ints_at_def)
  from assms(1) have f: "foldl (two_opt_step_h s route (calculate_route_distance s (ints_at h route)))
                        (?h1, length h, 0) (two_opt_pairs (length (ints_at h route))) = (h', best, imp)"
    by (simp add: improve_route_2opt_h_def list_copy_def r1)
  have "length h < length ?h1" by simp
  from foldl_two_opt_step_h_sim [OF f assms(2) e1 this]
  have "extends ?h1 h'" and b: "best < length h'"
    and v: "(ints_at h' best, imp)
              = foldl (two_opt_step s (ints_at h route) (calculate_route_distance s (ints_at h route)))
                  (ints_at ?h1 (length h), 0) (two_opt_pairs (length (ints_at h route)))"
    by simp_all
  then show "extends h h'" using e1 by (simp add: extends_trans)
  show "best < length h'" by (rule b)
  show "(ints_at h' best, imp) = improve_route_2opt s (ints_at h route)"
    using v b1 by (simp add: improve_route_2opt_def)
qed

lemma first_improvement_h_sim:
  assumes "first_improvement_h s h ps = (h', res)" and "\<forall>p\<in>set ps. snd p < length hb"
    and "extends hb h"
  shows "extends h h'"
    and "first_improvement s (map (\<lambda>p. (fst p, ints_at hb (snd p))) ps)
           = map_option (\<lambda>m. (fst m, ints_at h' (fst (snd m)), snd (snd m))) res"
    and "\<forall>m. res = Some m \<longrightarrow> fst (snd m) < length h'"
proof -
  have "extends h h'
      \<and> first_improvement s (map (\<lambda>p. (fst p, ints_at hb (snd p))) ps)
           = map_option (\<lambda>m. (fst m, ints_at h' (fst (snd m)), snd (snd m))) res
      \<and> (\<forall>m. res = Some m \<longrightarrow> fst (snd m) < length h')"
    using assms
  proof (induction ps arbitrary: h)
    case Nil
    then show ?case by (auto simp: extends_refl)
  next
    case (Cons p ps)
    obtain idx route where p: "p = (idx, route)" by (cases p) auto
    have rb: "route < length hb" using Cons.prems(2) p by simp
    have rl: "route < length h" using rb Cons.prems(3) extends_length by fastforce
    have rt: "ints_at h route = ints_at hb route" using Cons.prems(3) rb by (rule extends_ints_at)
    have rest: "\<forall>p\<in>set ps. snd p < length hb" using Cons.prems(2) by simp
    show ?case
    proof (cases "length (ints_at h route) < 3")
      case True
      then have "first_improvement_h s h ps = (h', res)" using Cons.prems(1) p by simp
      from Cons.IH [OF this rest Cons.prems(3)] True rt p show ?thesis by simp
    next
      case False
      obtain h1 b imp where ir: "improve_route_2opt_h s h route = (h1, b, imp)"
        by (metis prod_cases3)
      note sim = improve_route_2opt_h_sim [OF ir rl]
      from sim(3) rt have v: "improve_route_2opt s (ints_at hb route) = (ints_at h1 b, imp)" by simp
      show ?thesis
      proof (cases "imp > 0.001")
        case True
        then have "h' = h1" "res = Some (idx, b, imp)"
          using Cons.prems(1) p False ir by simp_all
        then show ?thesis using sim(1,2) v True False rt p by simp
      next
        case nt: False
        then have c: "first_improvement_h s h1 ps = (h', res)"
          using Cons.prems(1) p False ir by simp
        have e: "extends hb h1" using Cons.prems(3) sim(1) by (rule extends_trans)
        from Cons.IH [OF c rest e] sim(1) v nt False rt p
        show ?thesis by (simp add: extends_trans)
      qed
    qed
  qed
  then show "extends h h'"
    and "first_improvement s (map (\<lambda>p. (fst p, ints_at hb (snd p))) ps)
           = map_option (\<lambda>m. (fst m, ints_at h' (fst (snd m)), snd (snd m))) res"
    and "\<forall>m. res = Some m \<longrightarrow> fst (snd m) < length h'"
    by simp_all
qed

text \<open>
  The address of an outer list whose items are addresses of objects of the store.
\<close>

definition outer_list :: "store \<Rightarrow> nat \<Rightarrow> bool" where
  "outer_list h cur \<longleftrightarrow> cur < length h \<and> (\<exists>rs. h ! cur = RefList rs \<and> (\<forall>r\<in>set rs. r < length h))"

lemma outer_listD:
  assumes "outer_list h cur"
  shows "cur < length h" and "h ! cur = RefList (refs_at h cur)" and "\<forall>r\<in>set (refs_at h cur). r < length h"
  using assms by (auto simp: outer_list_def refs_at_def)

lemma extends_deref_routes:
  assumes "outer_list h cur" and "extends h h'"
  shows "deref_routes h' cur = deref_routes h cur" and "outer_list h' cur"
proof -
  note o = outer_listD [OF assms(1)]
  have r: "refs_at h' cur = refs_at h cur" using assms(2) o(1) by (rule extends_refs_at)
  have "ints_at h' a = ints_at h a" if "a \<in> set (refs_at h cur)" for a
    using assms(2) o(3) that by (auto intro: extends_ints_at)
  then show "deref_routes h' cur = deref_routes h cur" by (simp add: deref_routes_def r)
  have "h' ! cur = RefList (refs_at h cur)" using extends_nth [OF assms(2) o(1)] o(2) by simp
  moreover have "\<forall>a\<in>set (refs_at h cur). a < length h'"
    using o(3) extends_length [OF assms(2)] by fastforce
  moreover have "cur < length h'" using o(1) extends_length [OF assms(2)] by simp
  ultimately show "outer_list h' cur" by (auto simp: outer_list_def)
qed

lemma ref_set_item_props:
  assumes "outer_list h cur" and "a < length h"
  shows "deref_routes (ref_set_item h cur i a) cur = (deref_routes h cur)[i := ints_at h a]"
    and "outer_list (ref_set_item h cur i a) cur"
    and "ints_at (ref_set_item h cur i a) b = ints_at h b"
    and "length (ref_set_item h cur i a) = length h"
proof -
  note o = outer_listD [OF assms(1)]
  let ?h' = "ref_set_item h cur i a"
  have h': "?h' = h[cur := RefList ((refs_at h cur)[i := a])]" by (simp add: ref_set_item_def)
  have r: "refs_at ?h' cur = (refs_at h cur)[i := a]" using o(1) by (simp add: h' refs_at_def)
  have ia: "ints_at ?h' c = ints_at h c" for c
  proof (cases "c = cur")
    case True
    then show ?thesis using o(1,2) by (simp add: h' ints_at_def)
  next
    case False
    then show ?thesis by (simp add: h' ints_at_def)
  qed
  then have ie: "ints_at ?h' = ints_at h" by (rule ext)
  show "ints_at ?h' b = ints_at h b" by (rule ia)
  show "deref_routes ?h' cur = (deref_routes h cur)[i := ints_at h a]"
    unfolding deref_routes_def r ie by (rule map_update)
  show "length ?h' = length h" by (simp add: h')
  have "\<forall>b\<in>set ((refs_at h cur)[i := a]). b < length ?h'"
    using o(3) assms(2) set_update_subset_insert [of "refs_at h cur" i a] by (auto simp: h')
  moreover have "?h' ! cur = RefList ((refs_at h cur)[i := a])" using o(1) by (simp add: h')
  ultimately show "outer_list ?h' cur" using o(1) by (auto simp: outer_list_def h')
qed

lemma enumerate_map_snd:
  "map (\<lambda>p. (fst p, f (snd p))) (enumerate n xs) = enumerate n (map f xs)"
  by (induction xs arbitrary: n) simp_all

lemma improve_pass_h_sim:
  assumes o: "outer_list (heap hs) (current_routes_ref hs)"
  shows "loop_state_of (improve_pass_h s hs) = improve_pass s (loop_state_of hs)"
    and "outer_list (heap (improve_pass_h s hs)) (current_routes_ref (improve_pass_h s hs))"
    and "current_routes_ref (improve_pass_h s hs) = current_routes_ref hs"
    and "extends hb (heap hs) \<Longrightarrow> length hb \<le> current_routes_ref hs
           \<Longrightarrow> extends hb (heap (improve_pass_h s hs))"
proof -
  let ?h = "heap hs" and ?cur = "current_routes_ref hs"
  let ?ps = "enumerate 0 (refs_at ?h ?cur)"
  note od = outer_listD [OF o]
  obtain h1 res where fi: "first_improvement_h s ?h ?ps = (h1, res)" by (cases "first_improvement_h s ?h ?ps") auto
  have inr: "\<forall>p\<in>set ?ps. snd p < length ?h"
    using od(3) by (auto simp: in_set_enumerate_eq)
  note sim = first_improvement_h_sim [OF fi inr extends_refl]
  have pure: "first_improvement s (enumerate 0 (deref_routes ?h ?cur))
                = map_option (\<lambda>m. (fst m, ints_at h1 (fst (snd m)), snd (snd m))) res"
    using sim(2) by (simp add: enumerate_map_snd deref_routes_def)
  note e1 = extends_deref_routes [OF o sim(1)]
  have all: "loop_state_of (improve_pass_h s hs) = improve_pass s (loop_state_of hs)
      \<and> outer_list (heap (improve_pass_h s hs)) (current_routes_ref (improve_pass_h s hs))
      \<and> current_routes_ref (improve_pass_h s hs) = ?cur
      \<and> (extends hb ?h \<longrightarrow> length hb \<le> ?cur \<longrightarrow> extends hb (heap (improve_pass_h s hs)))"
  proof (cases res)
    case None
    then have p: "improve_pass_h s hs
        = hs\<lparr>heap := h1, found_h := False, without_h := without_h hs + 1, total_h := total_h hs + 1\<rparr>"
      using fi by (simp add: improve_pass_h_def)
    have "first_improvement s (enumerate 0 (deref_routes ?h ?cur)) = None" using pure None by simp
    then have "loop_state_of (improve_pass_h s hs) = improve_pass s (loop_state_of hs)"
      using e1(1) by (simp add: p loop_state_of_def improve_pass_def)
    moreover have "extends hb ?h \<longrightarrow> extends hb h1" using sim(1) by (auto intro: extends_trans)
    ultimately show ?thesis using e1(2) by (simp add: p)
  next
    case (Some m)
    obtain idx a imp where m: "m = (idx, a, imp)" by (cases m) auto
    have p: "improve_pass_h s hs
        = hs\<lparr>heap := ref_set_item h1 ?cur idx a, distance_h := distance_h hs - imp,
             found_h := True, without_h := 0, total_h := total_h hs + 1\<rparr>"
      using fi Some m by (simp add: improve_pass_h_def)
    have a: "a < length h1" using sim(3) Some m by simp
    note w = ref_set_item_props [OF e1(2) a, of idx]
    have "first_improvement s (enumerate 0 (deref_routes ?h ?cur)) = Some (idx, ints_at h1 a, imp)"
      using pure Some m by simp
    then have "loop_state_of (improve_pass_h s hs) = improve_pass s (loop_state_of hs)"
      using w(1) e1(1) by (simp add: p loop_state_of_def improve_pass_def)
    moreover have "extends hb ?h \<longrightarrow> length hb \<le> ?cur \<longrightarrow> extends hb (ref_set_item h1 ?cur idx a)"
      unfolding ref_set_item_def using sim(1) by (auto intro: extends_update extends_trans)
    ultimately show ?thesis using w(2) by (simp add: p)
  qed
  from all show "loop_state_of (improve_pass_h s hs) = improve_pass s (loop_state_of hs)" by blast
  from all show "outer_list (heap (improve_pass_h s hs)) (current_routes_ref (improve_pass_h s hs))"
    by blast
  from all show "current_routes_ref (improve_pass_h s hs) = current_routes_ref hs" by blast
  from all show "extends hb (heap hs) \<Longrightarrow> length hb \<le> current_routes_ref hs
           \<Longrightarrow> extends hb (heap (improve_pass_h s hs))" by blast
qed

lemma improve_loop_h_sim:
  assumes "st = loop_state_of hs" and "outer_list (heap hs) (current_routes_ref hs)"
    and "extends hb (heap hs)" and "length hb \<le> current_routes_ref hs"
  shows "\<exists>hs'. improve_loop_h s m hs = Some hs'
           \<and> loop_state_of hs' = improve_loop s m st
           \<and> outer_list (heap hs') (current_routes_ref hs')
           \<and> current_routes_ref hs' = current_routes_ref hs
           \<and> extends hb (heap hs')"
  using assms
proof (induction s m st arbitrary: hs rule: improve_loop.induct)
  case (1 s m st)
  show ?case
  proof (cases "improvement_found st \<and> iterations_without_improvement st < m")
    case True
    then have c: "found_h hs \<and> without_h hs < m" using "1.prems"(1) by (simp add: loop_state_of_def)
    note sim = improve_pass_h_sim [OF "1.prems"(2), where s = s]
    have st': "improve_pass s st = loop_state_of (improve_pass_h s hs)"
      using sim(1) "1.prems"(1) by simp
    have r: "length hb \<le> current_routes_ref (improve_pass_h s hs)"
      using sim(3) "1.prems"(4) by simp
    from "1.IH" [OF True st' sim(2) sim(4) [OF "1.prems"(3,4)] r]
    obtain hs' where "improve_loop_h s m (improve_pass_h s hs) = Some hs'"
      and "loop_state_of hs' = improve_loop s m (improve_pass s st)"
      and "outer_list (heap hs') (current_routes_ref hs')"
      and "current_routes_ref hs' = current_routes_ref (improve_pass_h s hs)"
      and "extends hb (heap hs')"
      by blast
    then show ?thesis
      using c sim(3) by (subst improve_loop_h.simps) (simp add: improve_loop_continue [OF True])
  next
    case False
    then have c: "\<not> (found_h hs \<and> without_h hs < m)" using "1.prems"(1) by (simp add: loop_state_of_def)
    have "improve_loop_h s m hs = Some hs" using c by (subst improve_loop_h.simps) auto
    then show ?thesis using "1.prems" False by (simp add: improve_loop_stop)
  qed
qed

subsection \<open>The deep copy\<close>

lemma deepcopy_items_props:
  assumes "deepcopy_items h memo rs = (h', memo', ys)"
    and "extends h0 h" and "\<forall>r\<in>set rs. r < length h0"
    and "\<forall>p\<in>set memo. length hb \<le> snd p \<and> snd p < length h \<and> ints_at h (snd p) = ints_at h0 (fst p)"
    and "length hb \<le> length h"
  shows "extends h h'"
    and "map (ints_at h') ys = map (ints_at h0) rs"
    and "\<forall>y\<in>set ys. length hb \<le> y \<and> y < length h'"
proof -
  have "extends h h' \<and> map (ints_at h') ys = map (ints_at h0) rs
        \<and> (\<forall>y\<in>set ys. length hb \<le> y \<and> y < length h')
        \<and> (\<forall>p\<in>set memo'. length hb \<le> snd p \<and> snd p < length h' \<and> ints_at h' (snd p) = ints_at h0 (fst p))"
    using assms
  proof (induction rs arbitrary: h memo h' memo' ys)
    case Nil
    then show ?case by (auto simp: extends_refl)
  next
    case (Cons r rs)
    have rs: "\<forall>r\<in>set rs. r < length h0" and r0: "r < length h0" using Cons.prems(3) by simp_all
    show ?case
    proof (cases "map_of memo r")
      case (Some y)
      obtain h1 m1 ys1 where rec: "deepcopy_items h memo rs = (h1, m1, ys1)" by (metis prod_cases3)
      from Cons.prems(1) Some rec have eq: "h' = h1" "memo' = m1" "ys = y # ys1" by simp_all
      have ym: "(r, y) \<in> set memo" using Some by (rule map_of_SomeD)
      then have y: "length hb \<le> y" "y < length h" "ints_at h y = ints_at h0 r"
        using Cons.prems(4) by auto
      from Cons.IH [OF rec Cons.prems(2) rs Cons.prems(4,5)]
      have ih: "extends h h1" "map (ints_at h1) ys1 = map (ints_at h0) rs"
        "\<forall>y\<in>set ys1. length hb \<le> y \<and> y < length h1"
        "\<forall>p\<in>set m1. length hb \<le> snd p \<and> snd p < length h1 \<and> ints_at h1 (snd p) = ints_at h0 (fst p)"
        by simp_all
      have "ints_at h1 y = ints_at h0 r" using extends_ints_at [OF ih(1) y(2)] y(3) by simp
      moreover have "y < length h1" using y(2) extends_length [OF ih(1)] by simp
      ultimately show ?thesis using ih y(1) by (simp add: eq)
    next
      case None
      let ?h1 = "h @ [IntList (ints_at h r)]"
      let ?m1 = "(r, length h) # memo"
      obtain h2 m2 ys2 where rec: "deepcopy_items ?h1 ?m1 rs = (h2, m2, ys2)" by (metis prod_cases3)
      from Cons.prems(1) None rec have eq: "h' = h2" "memo' = m2" "ys = length h # ys2" by simp_all
      have e1: "extends h ?h1" by (rule extends_append)
      have e01: "extends h0 ?h1" using Cons.prems(2) e1 by (rule extends_trans)
      have hr: "ints_at h r = ints_at h0 r" using Cons.prems(2) r0 by (rule extends_ints_at)
      have "ints_at ?h1 (length h) = ints_at h r" by (simp add: ints_at_def)
      then have new: "ints_at ?h1 (length h) = ints_at h0 r" using hr by simp
      have m1: "\<forall>p\<in>set ?m1. length hb \<le> snd p \<and> snd p < length ?h1 \<and> ints_at ?h1 (snd p) = ints_at h0 (fst p)"
      proof
        fix p assume "p \<in> set ?m1"
        then consider "p = (r, length h)" | "p \<in> set memo" by auto
        then show "length hb \<le> snd p \<and> snd p < length ?h1 \<and> ints_at ?h1 (snd p) = ints_at h0 (fst p)"
        proof cases
          case 1
          then show ?thesis using new Cons.prems(5) by simp
        next
          case 2
          then have "length hb \<le> snd p" "snd p < length h" "ints_at h (snd p) = ints_at h0 (fst p)"
            using Cons.prems(4) by auto
          then show ?thesis using extends_ints_at [OF e1, of "snd p"] by simp
        qed
      qed
      have l1: "length hb \<le> length ?h1" using Cons.prems(5) by simp
      from Cons.IH [OF rec e01 rs m1 l1]
      have ih: "extends ?h1 h2" "map (ints_at h2) ys2 = map (ints_at h0) rs"
        "\<forall>y\<in>set ys2. length hb \<le> y \<and> y < length h2"
        "\<forall>p\<in>set m2. length hb \<le> snd p \<and> snd p < length h2 \<and> ints_at h2 (snd p) = ints_at h0 (fst p)"
        by simp_all
      have "ints_at h2 (length h) = ints_at h0 r"
        using extends_ints_at [OF ih(1), of "length h"] new by simp
      moreover have "length h < length h2" using extends_length [OF ih(1)] by simp
      moreover have "extends h h2" using e1 ih(1) by (rule extends_trans)
      ultimately show ?thesis using ih Cons.prems(5) by (simp add: eq)
    qed
  qed
  then show "extends h h'"
    and "map (ints_at h') ys = map (ints_at h0) rs"
    and "\<forall>y\<in>set ys. length hb \<le> y \<and> y < length h'"
    by simp_all
qed

lemma deepcopy_props:
  assumes "outer_list h a" and "deepcopy h a = (h1, cur)"
  shows "extends h h1" and "cur = length h" and "outer_list h1 cur"
    and "deref_routes h1 cur = deref_routes h a"
    and "\<forall>y\<in>set (refs_at h1 cur). length h \<le> y"
proof -
  note o = outer_listD [OF assms(1)]
  let ?h0 = "h @ [RefList []]"
  obtain h' memo ys where di: "deepcopy_items ?h0 [(a, length h)] (refs_at h a) = (h', memo, ys)"
    by (metis prod_cases3)
  from assms(2) di have h1: "h1 = h'[length h := RefList ys]" and cur: "cur = length h"
    by (auto simp: deepcopy_def)
  have e0: "extends h ?h0" by (rule extends_append)
  have "ints_at ?h0 (length h) = ints_at h a" using o(2) by (simp add: ints_at_def)
  then have m: "\<forall>p\<in>set [(a, length h)]. length h \<le> snd p \<and> snd p < length ?h0
                  \<and> ints_at ?h0 (snd p) = ints_at h (fst p)" by simp
  have l: "length h \<le> length ?h0" by simp
  note d = deepcopy_items_props [OF di e0 o(3) m l]
  have lt: "length h < length h'" using extends_length [OF d(1)] by simp
  have e: "extends h h'" using e0 d(1) by (rule extends_trans)
  show "extends h h1" unfolding h1 using e by (rule extends_update) simp
  show "cur = length h" by (rule cur)
  have at: "h1 ! cur = RefList ys" using lt by (simp add: h1 cur)
  have r: "refs_at h1 cur = ys" by (simp add: refs_at_def at)
  have "h' ! length h = RefList []" using extends_nth [OF d(1), of "length h"] by simp
  then have ia: "ints_at h1 y = ints_at h' y" for y
    using lt by (cases "y = length h") (simp_all add: h1 ints_at_def)
  from ia have "ints_at h1 = ints_at h'" by (rule ext)
  then show "deref_routes h1 cur = deref_routes h a"
    using d(2) by (simp add: deref_routes_def r)
  show "outer_list h1 cur"
    using d(3) lt at by (auto simp: outer_list_def h1 cur)
  show "\<forall>y\<in>set (refs_at h1 cur). length h \<le> y" using d(3) by (simp add: r)
qed

subsection \<open>The store-level swap search finds what the value-level one does\<close>

lemma int_set_item_fresh:
  "int_set_item (h @ [x, y]) (length h) i v
     = h @ [IntList ((ints_at (h @ [x, y]) (length h))[i := v]), y]"
  "int_set_item (h @ [x, y]) (Suc (length h)) i v
     = h @ [x, IntList ((ints_at (h @ [x, y]) (Suc (length h)))[i := v])]"
  by (simp_all add: int_set_item_def list_update_append)

lemma swap_trial:
  assumes o: "outer_list hb cur" and e: "extends hb h"
    and i: "i < length (refs_at hb cur)" and j: "j < length (refs_at hb cur)"
  shows "first_swap_h s h cur ((i, j, ci, cj) # rest) =
           (let h4 = h @ [IntList (fst (swap_customers (deref_routes hb cur ! i) (deref_routes hb cur ! j) ci cj)),
                          IntList (snd (swap_customers (deref_routes hb cur ! i) (deref_routes hb cur ! j) ci cj))]
            in if swap_accepted s (deref_routes hb cur) (i, j, ci, cj)
               then (h4, Some (i, j, length h, Suc (length h),
                       swap_old_distance s (deref_routes hb cur) (i, j, ci, cj)
                       - swap_new_distance s (deref_routes hb cur) (i, j, ci, cj)))
               else first_swap_h s h4 cur rest)"
proof -
  note od = outer_listD [OF o]
  let ?rs = "refs_at hb cur"
  let ?R = "deref_routes hb cur"
  let ?A = "fst (swap_customers (?R ! i) (?R ! j) ci cj)"
  let ?B = "snd (swap_customers (?R ! i) (?R ! j) ci cj)"
  have cl: "cur < length h" using od(1) extends_length [OF e] by simp
  have ri: "?rs ! i < length hb" and rj: "?rs ! j < length hb" using od(3) i j by simp_all
  have Ri: "?R ! i = ints_at hb (?rs ! i)" and Rj: "?R ! j = ints_at hb (?rs ! j)"
    using i j by (simp_all add: deref_routes_def)
  have rh: "refs_at h cur = ?rs" using e od(1) by (rule extends_refs_at)
  have ii: "ints_at h (?rs ! i) = ?R ! i" using extends_ints_at [OF e ri] Ri by simp
  have ij: "ints_at h (?rs ! j) = ?R ! j" using extends_ints_at [OF e rj] Rj by simp
  let ?h1 = "h @ [h ! (?rs ! i)]"
  have e1: "extends h ?h1" by (rule extends_append)
  have r1: "refs_at ?h1 cur = ?rs" using extends_refs_at [OF e1 cl] rh by simp
  have rjl: "?rs ! j < length h" using rj extends_length [OF e] by simp
  have ril: "?rs ! i < length h" using ri extends_length [OF e] by simp
  have h1j: "?h1 ! (?rs ! j) = h ! (?rs ! j)" using rjl by (simp add: nth_append)
  let ?h2 = "h @ [h ! (?rs ! i), h ! (?rs ! j)]"
  have n2i: "ints_at ?h2 (length h) = ?R ! i" using ii by (simp add: ints_at_def nth_append)
  have n2j: "ints_at ?h2 (Suc (length h)) = ?R ! j" using ij by (simp add: ints_at_def nth_append)
  let ?h3 = "int_set_item ?h2 (length h) ci (ints_at ?h2 (Suc (length h)) ! cj)"
  have "?h3 = h @ [IntList ((ints_at ?h2 (length h))[ci := ints_at ?h2 (Suc (length h)) ! cj]),
                   h ! (?rs ! j)]"
    by (rule int_set_item_fresh)
  then have h3: "?h3 = h @ [IntList ?A, h ! (?rs ! j)]"
    by (simp only: n2i n2j swap_customers_def fst_conv)
  let ?h3' = "h @ [IntList ?A, h ! (?rs ! j)]"
  have n3j: "ints_at ?h3' (Suc (length h)) = ?R ! j"
    using ij by (simp add: ints_at_def nth_append)
  let ?h4 = "int_set_item ?h3 (Suc (length h)) cj (ints_at ?h2 (length h) ! ci)"
  have "?h4 = int_set_item ?h3' (Suc (length h)) cj (?R ! i ! ci)"
    by (simp only: h3 n2i)
  also have "\<dots> = h @ [IntList ?A, IntList ((ints_at ?h3' (Suc (length h)))[cj := ?R ! i ! ci])]"
    by (rule int_set_item_fresh)
  also have "\<dots> = h @ [IntList ?A, IntList ?B]"
    unfolding n3j by (simp add: swap_customers_def)
  finally have h4: "?h4 = h @ [IntList ?A, IntList ?B]" .
  have e4: "extends h (h @ [IntList ?A, IntList ?B])" by (rule extends_append)
  have a4: "ints_at (h @ [IntList ?A, IntList ?B]) (length h) = ?A"
    and b4: "ints_at (h @ [IntList ?A, IntList ?B]) (Suc (length h)) = ?B"
    by (simp_all add: ints_at_def nth_append)
  have r4: "refs_at (h @ [IntList ?A, IntList ?B]) cur = ?rs"
    using extends_refs_at [OF e4 cl] rh by simp
  have oi: "ints_at (h @ [IntList ?A, IntList ?B]) (?rs ! i) = ?R ! i"
    using extends_ints_at [OF e4 ril] ii by simp
  have oj: "ints_at (h @ [IntList ?A, IntList ?B]) (?rs ! j) = ?R ! j"
    using extends_ints_at [OF e4 rjl] ij by simp
  have unf: "first_swap_h s h cur ((i, j, ci, cj) # rest) =
      (if is_route_feasible s (ints_at ?h4 (length h)) \<and> is_route_feasible s (ints_at ?h4 (Suc (length h)))
       then if calculate_route_distance s (ints_at ?h4 (length h))
                 + calculate_route_distance s (ints_at ?h4 (Suc (length h)))
               < calculate_route_distance s (ints_at ?h4 (refs_at ?h4 cur ! i))
                 + calculate_route_distance s (ints_at ?h4 (refs_at ?h4 cur ! j)) - 0.001
            then (?h4, Some (i, j, length h, Suc (length h),
                    calculate_route_distance s (ints_at ?h4 (refs_at ?h4 cur ! i))
                    + calculate_route_distance s (ints_at ?h4 (refs_at ?h4 cur ! j))
                    - (calculate_route_distance s (ints_at ?h4 (length h))
                       + calculate_route_distance s (ints_at ?h4 (Suc (length h))))))
            else first_swap_h s ?h4 cur rest
       else first_swap_h s ?h4 cur rest)"
    by (simp add: list_copy_def Let_def rh r1 h1j)
  show ?thesis
    unfolding unf unfolding h4 a4 b4 r4 oi oj
    by (simp add: Let_def swap_accepted_def swap_old_distance_def swap_new_distance_def)
qed

text \<open>What the store-level search returns, against the value-level search.\<close>

definition swap_result_ok ::
  "'a TwoOptVRP_scheme \<Rightarrow> route list \<Rightarrow> (nat \<times> nat \<times> nat \<times> nat) list \<Rightarrow> store
     \<Rightarrow> (nat \<times> nat \<times> nat \<times> nat \<times> real) option \<Rightarrow> bool" where
  "swap_result_ok s R cs h' res \<longleftrightarrow>
     (case res of
        None \<Rightarrow> find (swap_accepted s R) cs = None
      | Some (i, j, a, b, imp) \<Rightarrow>
          (\<exists>ci cj. find (swap_accepted s R) cs = Some (i, j, ci, cj)
             \<and> a < length h' \<and> b < length h'
             \<and> ints_at h' a = fst (swap_customers (R ! i) (R ! j) ci cj)
             \<and> ints_at h' b = snd (swap_customers (R ! i) (R ! j) ci cj)
             \<and> imp = swap_old_distance s R (i, j, ci, cj) - swap_new_distance s R (i, j, ci, cj)))"

lemma swap_result_ok_Cons:
  assumes "\<not> swap_accepted s R c" and "swap_result_ok s R cs h' res"
  shows "swap_result_ok s R (c # cs) h' res"
proof -
  have "find (swap_accepted s R) (c # cs) = find (swap_accepted s R) cs"
    using assms(1) by simp
  then show ?thesis using assms(2) unfolding swap_result_ok_def by (simp only:)
qed

lemma first_swap_h_sim:
  assumes "first_swap_h s h cur cs = (h', res)" and "outer_list hb cur" and "extends hb h"
    and "\<forall>c\<in>set cs. fst c < length (refs_at hb cur) \<and> fst (snd c) < length (refs_at hb cur)"
  shows "extends h h' \<and> swap_result_ok s (deref_routes hb cur) cs h' res"
  using assms(1,3,4)
proof (induction cs arbitrary: h)
  case Nil
  then show ?case by (simp add: extends_refl swap_result_ok_def)
next
  case (Cons c cs)
  let ?R = "deref_routes hb cur"
  obtain i j ci cj where c: "c = (i, j, ci, cj)" by (cases c) auto
  have i: "i < length (refs_at hb cur)" and j: "j < length (refs_at hb cur)"
    using Cons.prems(3) c by simp_all
  let ?A = "fst (swap_customers (?R ! i) (?R ! j) ci cj)"
  let ?B = "snd (swap_customers (?R ! i) (?R ! j) ci cj)"
  let ?h4 = "h @ [IntList ?A, IntList ?B]"
  note tr = swap_trial [OF assms(2) Cons.prems(2) i j, of s ci cj cs, unfolded Let_def]
  have e4: "extends h ?h4" by (rule extends_append)
  show ?case
  proof (cases "swap_accepted s ?R (i, j, ci, cj)")
    case True
    have "(h', res) = (?h4, Some (i, j, length h, Suc (length h),
                 swap_old_distance s ?R (i, j, ci, cj) - swap_new_distance s ?R (i, j, ci, cj)))"
      using Cons.prems(1) True unfolding c tr by simp
    then have r: "h' = ?h4"
      "res = Some (i, j, length h, Suc (length h),
                 swap_old_distance s ?R (i, j, ci, cj) - swap_new_distance s ?R (i, j, ci, cj))"
      by simp_all
    have va: "ints_at ?h4 (length h) = ?A" and vb: "ints_at ?h4 (Suc (length h)) = ?B"
      by (simp_all add: ints_at_def nth_append)
    have "swap_result_ok s ?R (c # cs) h' res"
      unfolding swap_result_ok_def r c using True va vb by simp
    then show ?thesis using e4 r(1) by simp
  next
    case False
    have rec: "first_swap_h s ?h4 cur cs = (h', res)"
      using Cons.prems(1) False unfolding c tr by simp
    have e: "extends hb ?h4" using Cons.prems(2) e4 by (rule extends_trans)
    have v: "\<forall>c\<in>set cs. fst c < length (refs_at hb cur) \<and> fst (snd c) < length (refs_at hb cur)"
      using Cons.prems(3) by simp
    from Cons.IH [OF rec e v]
    have e': "extends ?h4 h'" and ok: "swap_result_ok s ?R cs h' res" by simp_all
    have "extends h h'" using e4 e' by (rule extends_trans)
    moreover have "swap_result_ok s ?R (c # cs) h' res"
      using False ok unfolding c by (rule swap_result_ok_Cons)
    ultimately show ?thesis by simp
  qed
qed

lemma inter_pass_h_sim:
  assumes o: "outer_list (heap hs) (current_routes_ref hs)"
  shows "loop_state_of (inter_pass_h s hs) = inter_pass s (loop_state_of hs)"
    and "outer_list (heap (inter_pass_h s hs)) (current_routes_ref (inter_pass_h s hs))"
    and "current_routes_ref (inter_pass_h s hs) = current_routes_ref hs"
    and "extends hb (heap hs) \<Longrightarrow> length hb \<le> current_routes_ref hs
           \<Longrightarrow> extends hb (heap (inter_pass_h s hs))"
proof -
  let ?h = "heap hs" and ?cur = "current_routes_ref hs"
  let ?R = "deref_routes ?h ?cur"
  let ?cs = "swap_candidates ?R"
  obtain h1 res where fs: "first_swap_h s ?h ?cur ?cs = (h1, res)"
    by (cases "first_swap_h s ?h ?cur ?cs") auto
  have lenR: "length ?R = length (refs_at ?h ?cur)" by (simp add: deref_routes_def)
  have valid: "\<forall>c\<in>set ?cs. fst c < length (refs_at ?h ?cur) \<and> fst (snd c) < length (refs_at ?h ?cur)"
  proof
    fix c assume c: "c \<in> set ?cs"
    obtain i j ci cj where cc: "c = (i, j, ci, cj)" by (cases c) auto
    from c cc have "i < j \<and> j < length ?R" by (simp add: swap_candidates_iff)
    then show "fst c < length (refs_at ?h ?cur) \<and> fst (snd c) < length (refs_at ?h ?cur)"
      using lenR cc by simp
  qed
  from first_swap_h_sim [OF fs o extends_refl valid]
  have sim1: "extends ?h h1" and sim2: "swap_result_ok s ?R ?cs h1 res" by simp_all
  note e1 = extends_deref_routes [OF o sim1]
  have all: "loop_state_of (inter_pass_h s hs) = inter_pass s (loop_state_of hs)
      \<and> outer_list (heap (inter_pass_h s hs)) (current_routes_ref (inter_pass_h s hs))
      \<and> current_routes_ref (inter_pass_h s hs) = ?cur
      \<and> (extends hb ?h \<longrightarrow> length hb \<le> ?cur \<longrightarrow> extends hb (heap (inter_pass_h s hs)))"
  proof (cases res)
    case None
    then have p: "inter_pass_h s hs
        = hs\<lparr>heap := h1, found_h := False, without_h := without_h hs + 1, total_h := total_h hs + 1\<rparr>"
      using fs by (simp add: inter_pass_h_def)
    have "first_swap s ?R = None" using sim2 None by (simp add: first_swap_def swap_result_ok_def)
    then have "loop_state_of (inter_pass_h s hs) = inter_pass s (loop_state_of hs)"
      using e1(1) by (simp add: p loop_state_of_def inter_pass_def)
    moreover have "extends hb ?h \<longrightarrow> extends hb h1" using sim1 by (auto intro: extends_trans)
    ultimately show ?thesis using e1(2) by (simp add: p)
  next
    case (Some m)
    obtain i j a b imp where m: "m = (i, j, a, b, imp)" by (cases m) auto
    let ?h5 = "ref_set_item h1 ?cur i a"
    let ?h6 = "ref_set_item ?h5 ?cur j b"
    have p: "inter_pass_h s hs
        = hs\<lparr>heap := ?h6, distance_h := distance_h hs - imp,
             found_h := True, without_h := 0, total_h := total_h hs + 1\<rparr>"
      using fs Some m by (simp add: inter_pass_h_def)
    from sim2 Some m obtain ci cj where
      f: "find (swap_accepted s ?R) ?cs = Some (i, j, ci, cj)"
      and a: "a < length h1" and b: "b < length h1"
      and va: "ints_at h1 a = fst (swap_customers (?R ! i) (?R ! j) ci cj)"
      and vb: "ints_at h1 b = snd (swap_customers (?R ! i) (?R ! j) ci cj)"
      and vi: "imp = swap_old_distance s ?R (i, j, ci, cj) - swap_new_distance s ?R (i, j, ci, cj)"
      by (auto simp: swap_result_ok_def)
    note w5 = ref_set_item_props [OF e1(2) a, of i]
    have b5: "b < length ?h5" using b w5(4) by simp
    note w6 = ref_set_item_props [OF w5(2) b5, of j]
    have d6: "deref_routes ?h6 ?cur = apply_swap ?R (i, j, ci, cj)"
      using w6(1) w5(1) w5(3) [of b] e1(1) va vb by (simp add: apply_swap_def)
    have fsw: "first_swap s ?R = Some (i, j, ci, cj)" using f by (simp add: first_swap_def)
    have "loop_state_of (inter_pass_h s hs) = inter_pass s (loop_state_of hs)"
      using d6 fsw vi by (simp add: p loop_state_of_def inter_pass_def Let_def)
    moreover have "extends hb ?h \<longrightarrow> length hb \<le> ?cur \<longrightarrow> extends hb ?h6"
      unfolding ref_set_item_def using sim1 by (auto intro: extends_update extends_trans)
    ultimately show ?thesis using w6(2) by (simp add: p)
  qed
  from all show "loop_state_of (inter_pass_h s hs) = inter_pass s (loop_state_of hs)" by blast
  from all show "outer_list (heap (inter_pass_h s hs)) (current_routes_ref (inter_pass_h s hs))"
    by blast
  from all show "current_routes_ref (inter_pass_h s hs) = current_routes_ref hs" by blast
  from all show "extends hb (heap hs) \<Longrightarrow> length hb \<le> current_routes_ref hs
           \<Longrightarrow> extends hb (heap (inter_pass_h s hs))" by blast
qed

lemma inter_loop_h_sim:
  assumes "st = loop_state_of hs" and "outer_list (heap hs) (current_routes_ref hs)"
    and "extends hb (heap hs)" and "length hb \<le> current_routes_ref hs"
  shows "\<exists>hs'. inter_loop_h s m hs = Some hs'
           \<and> loop_state_of hs' = inter_loop s m st
           \<and> outer_list (heap hs') (current_routes_ref hs')
           \<and> current_routes_ref hs' = current_routes_ref hs
           \<and> extends hb (heap hs')"
  using assms
proof (induction s m st arbitrary: hs rule: inter_loop.induct)
  case (1 s m st)
  show ?case
  proof (cases "improvement_found st \<and> iterations_without_improvement st < m")
    case True
    then have c: "found_h hs \<and> without_h hs < m" using "1.prems"(1) by (simp add: loop_state_of_def)
    note sim = inter_pass_h_sim [OF "1.prems"(2), where s = s]
    have st': "inter_pass s st = loop_state_of (inter_pass_h s hs)"
      using sim(1) "1.prems"(1) by simp
    have r: "length hb \<le> current_routes_ref (inter_pass_h s hs)"
      using sim(3) "1.prems"(4) by simp
    from "1.IH" [OF True st' sim(2) sim(4) [OF "1.prems"(3,4)] r]
    obtain hs' where "inter_loop_h s m (inter_pass_h s hs) = Some hs'"
      and "loop_state_of hs' = inter_loop s m (inter_pass s st)"
      and "outer_list (heap hs') (current_routes_ref hs')"
      and "current_routes_ref hs' = current_routes_ref (inter_pass_h s hs)"
      and "extends hb (heap hs')"
      by blast
    then show ?thesis
      using c sim(3) by (subst inter_loop_h.simps) (simp add: inter_loop_continue [OF True])
  next
    case False
    then have c: "\<not> (found_h hs \<and> without_h hs < m)" using "1.prems"(1) by (simp add: loop_state_of_def)
    have "inter_loop_h s m hs = Some hs" using c by (subst inter_loop_h.simps) auto
    then show ?thesis using "1.prems" False by (simp add: inter_loop_stop)
  qed
qed

lemma list_of_routes_outer: "list_of_routes h a \<Longrightarrow> outer_list h a"
  by (auto simp: list_of_routes_def outer_list_def list_all_iff)

lemma extends_take: "extends h h' \<Longrightarrow> take (length h) h' = h"
  by (auto simp: extends_def)

lemma improve_solution_h_frame:
  assumes "list_of_routes h a"
  shows "\<exists>h' r. improve_solution_h s h a m = Some (h', r)
           \<and> take (length h) h' = h
           \<and> deref_routes h' a = deref_routes h a
           \<and> (case r of
                 Inl e \<Rightarrow> improve_solution s (deref_routes h a) m = Inl e
               | Inr (ref, sol) \<Rightarrow>
                   improve_solution s (deref_routes h a) m = Inr sol
                   \<and> length h \<le> ref \<and> deref_routes h' ref = routes sol)"
proof -
  have o: "outer_list h a" using assms by (rule list_of_routes_outer)
  obtain h1 cur where dc: "deepcopy h a = (h1, cur)" by (cases "deepcopy h a") auto
  note d = deepcopy_props [OF o dc]
  have keep: "deref_routes h' a = deref_routes h a" if "extends h h'" for h'
    using extends_deref_routes(1) [OF o that] .
  show ?thesis
  proof (cases "routes_in_range s (deref_routes h a)")
    case False
    then show ?thesis
      using dc d(1,4) keep [OF d(1)]
      by (simp add: improve_solution_h_def improve_solution_def extends_take)
  next
    case True
    let ?hs = "initial_state_h s h1 cur"
    have st: "initial_state s (deref_routes h a) = loop_state_of ?hs"
      using d(4) by (simp add: initial_state_def loop_state_of_def initial_state_h_def)
    have o1: "outer_list (heap ?hs) (current_routes_ref ?hs)" using d(3) by (simp add: initial_state_h_def)
    have e1: "extends h (heap ?hs)" using d(1) by (simp add: initial_state_h_def)
    have c1: "length h \<le> current_routes_ref ?hs" using d(2) by (simp add: initial_state_h_def)
    from improve_loop_h_sim [OF st o1 e1 c1, of s m]
    obtain hs' where l: "improve_loop_h s m ?hs = Some hs'"
      and v: "loop_state_of hs' = improve_loop s m (initial_state s (deref_routes h a))"
      and r: "current_routes_ref hs' = cur" and e: "extends h (heap hs')"
      by (auto simp: initial_state_h_def)
    have dr: "deref_routes (heap hs') cur = current_routes (loop_state_of hs')"
      by (simp add: loop_state_of_def r)
    show ?thesis
      using True dc d(4) l v r keep [OF e] d(2) dr extends_take [OF e]
      by (simp add: improve_solution_h_def improve_solution_def result_of_def)
  qed
qed

lemma inter_route_2opt_h_frame:
  assumes "list_of_routes h a"
  shows "\<exists>h' r. inter_route_2opt_h s h a m = Some (h', r)
           \<and> take (length h) h' = h
           \<and> deref_routes h' a = deref_routes h a
           \<and> (case r of
                 Inl e \<Rightarrow> inter_route_2opt s (deref_routes h a) m = Inl e
               | Inr (ref, sol) \<Rightarrow>
                   inter_route_2opt s (deref_routes h a) m = Inr sol
                   \<and> length h \<le> ref \<and> deref_routes h' ref = routes sol)"
proof -
  have o: "outer_list h a" using assms by (rule list_of_routes_outer)
  obtain h1 cur where dc: "deepcopy h a = (h1, cur)" by (cases "deepcopy h a") auto
  note d = deepcopy_props [OF o dc]
  have keep: "deref_routes h' a = deref_routes h a" if "extends h h'" for h'
    using extends_deref_routes(1) [OF o that] .
  show ?thesis
  proof (cases "routes_in_range s (deref_routes h a)")
    case False
    then show ?thesis
      using dc d(1,4) keep [OF d(1)]
      by (simp add: inter_route_2opt_h_def inter_route_2opt_def extends_take)
  next
    case True
    let ?hs = "initial_state_h s h1 cur"
    have st: "initial_state s (deref_routes h a) = loop_state_of ?hs"
      using d(4) by (simp add: initial_state_def loop_state_of_def initial_state_h_def)
    have o1: "outer_list (heap ?hs) (current_routes_ref ?hs)" using d(3) by (simp add: initial_state_h_def)
    have e1: "extends h (heap ?hs)" using d(1) by (simp add: initial_state_h_def)
    have c1: "length h \<le> current_routes_ref ?hs" using d(2) by (simp add: initial_state_h_def)
    from inter_loop_h_sim [OF st o1 e1 c1, of s m]
    obtain hs' where l: "inter_loop_h s m ?hs = Some hs'"
      and v: "loop_state_of hs' = inter_loop s m (initial_state s (deref_routes h a))"
      and r: "current_routes_ref hs' = cur" and e: "extends h (heap hs')"
      by (auto simp: initial_state_h_def)
    have dr: "deref_routes (heap hs') cur = current_routes (loop_state_of hs')"
      by (simp add: loop_state_of_def r)
    show ?thesis
      using True dc d(4) l v r keep [OF e] d(2) dr extends_take [OF e]
      by (simp add: inter_route_2opt_h_def inter_route_2opt_def result_of_def)
  qed
qed

text \<open>The source's example routes as objects: three route objects and the list of them.\<close>

definition example_store :: store where
  "example_store = [IntList [0, 2, 3], IntList [1, 4], IntList [5], RefList [0, 1, 2]]"

lemma example_store_ok: "list_of_routes example_store 3"
  by (simp add: example_store_def list_of_routes_def)

chapter \<open>The claims\<close>

section \<open>C1\<close>




section \<open>C2\<close>

text \<open>
  C2. In the solution either constructor returns, no customer occurs twice in the routes
  or both in a route and in \<open>unvisited_customers\<close>, and the routes and
  \<open>unvisited_customers\<close> together hold exactly the customers \<open>0, ..., N - 1\<close>.
  \<open>inter_route_2opt\<close> returns routes of the same lengths holding the same customers, each
  as often as before: a customer assigned to exactly one route stays so.
\<close>

theorem solutions_partition_customers:
  assumes "instance_ok nn" and "savings_ok sv" and "instance_ok t" and "routes_in_range t rs"
  shows "distinct (concat (routes (nearest_neighbor_solve nn)) @ unvisited_customers (nearest_neighbor_solve nn))
       \<and> set (concat (routes (nearest_neighbor_solve nn)) @ unvisited_customers (nearest_neighbor_solve nn))
           = {0..<num_customers nn}
       \<and> distinct (concat (routes (savings_solve sv)) @ unvisited_customers (savings_solve sv))
       \<and> set (concat (routes (savings_solve sv)) @ unvisited_customers (savings_solve sv))
           = {0..<num_customers sv}
       \<and> (\<exists>sol. inter_route_2opt t rs m = Inr sol
             \<and> mset (concat (routes sol)) = mset (concat rs)
             \<and> map length (routes sol) = map length rs
             \<and> distinct (concat (routes sol)) = distinct (concat rs)
             \<and> set (concat (routes sol)) = set (concat rs))"
proof -
  have "same_shape rs (current_routes (inter_loop t m (initial_state t rs)))"
    using inter_loop_shape [of "initial_state t rs" t m] by (simp add: initial_state_def)
  then have ms: "mset (concat (current_routes (inter_loop t m (initial_state t rs)))) = mset (concat rs)"
    and ml: "map length (current_routes (inter_loop t m (initial_state t rs))) = map length rs"
    by (simp_all add: same_shape_def)
  from ms have "distinct (concat (current_routes (inter_loop t m (initial_state t rs)))) = distinct (concat rs)"
    by (rule mset_eq_imp_distinct_iff)
  moreover from ms have "set (concat (current_routes (inter_loop t m (initial_state t rs)))) = set (concat rs)"
    by (rule mset_eq_setD)
  ultimately have "\<exists>sol. inter_route_2opt t rs m = Inr sol
             \<and> mset (concat (routes sol)) = mset (concat rs)
             \<and> map length (routes sol) = map length rs
             \<and> distinct (concat (routes sol)) = distinct (concat rs)
             \<and> set (concat (routes sol)) = set (concat rs)"
    using ms ml assms(4) by (simp add: inter_route_2opt_def result_of_def)
  then show ?thesis
    using nearest_neighbor_solve_props(1,2) [of nn] savings_solve_partition [OF assms(2)]
    by simp
qed

theorem solutions_partition_customers_witness:
  "instance_ok example_nn \<and> savings_ok example_savings
   \<and> instance_ok example_solver \<and> routes_in_range example_solver example_routes
   \<and> distinct (concat (routes (nearest_neighbor_solve example_nn))
               @ unvisited_customers (nearest_neighbor_solve example_nn))
   \<and> set (concat (routes (nearest_neighbor_solve example_nn))
          @ unvisited_customers (nearest_neighbor_solve example_nn))
       = {0..<num_customers example_nn}
   \<and> distinct (concat (routes (savings_solve example_savings))
               @ unvisited_customers (savings_solve example_savings))
   \<and> set (concat (routes (savings_solve example_savings))
          @ unvisited_customers (savings_solve example_savings))
       = {0..<num_customers example_savings}
   \<and> (\<exists>sol. inter_route_2opt example_solver example_routes 100 = Inr sol
         \<and> mset (concat (routes sol)) = mset (concat example_routes)
         \<and> map length (routes sol) = map length example_routes
         \<and> distinct (concat (routes sol)) = distinct (concat example_routes)
         \<and> set (concat (routes sol)) = set (concat example_routes))"
  using solutions_partition_customers
          [OF example_nn_ok example_savings_ok example_ok example_in_range, of 100]
    example_nn_ok example_savings_ok example_ok example_in_range
  by (simp del: set_concat mset_concat distinct_concat)

section \<open>C3\<close>

text \<open>
  C3. Improvement never increases the total distance: for every instance, every route
  list naming customers of the instance and every iteration budget, \<open>improve_solution\<close>
  and \<open>inter_route_2opt\<close> return a solution whose \<open>total_distance\<close> is at most the total
  distance of the route list given.
\<close>

theorem improvement_never_increases_distance:
  assumes "instance_ok s" and "routes_in_range s initial_routes"
  shows "(\<exists>sol. improve_solution s initial_routes max_iterations = Inr sol
            \<and> total_distance sol \<le> calculate_total_distance s initial_routes)
       \<and> (\<exists>sol. inter_route_2opt s initial_routes max_iterations = Inr sol
            \<and> total_distance sol \<le> calculate_total_distance s initial_routes)"
proof -
  have "current_distance (improve_loop s max_iterations (initial_state s initial_routes))
          \<le> calculate_total_distance s initial_routes"
    using improve_loop_mono [of s max_iterations "initial_state s initial_routes"]
    by (simp add: initial_state_def)
  moreover have "current_distance (inter_loop s max_iterations (initial_state s initial_routes))
          \<le> calculate_total_distance s initial_routes"
    using inter_loop_mono [of s max_iterations "initial_state s initial_routes"]
    by (simp add: initial_state_def)
  ultimately show ?thesis
    using assms(2) by (simp add: improve_solution_def inter_route_2opt_def result_of_def)
qed

theorem improvement_never_increases_distance_witness:
  "instance_ok example_solver \<and> routes_in_range example_solver example_routes
   \<and> (\<exists>sol. improve_solution example_solver example_routes 100 = Inr sol
         \<and> total_distance sol \<le> calculate_total_distance example_solver example_routes)
   \<and> (\<exists>sol. inter_route_2opt example_solver example_routes 100 = Inr sol
         \<and> total_distance sol \<le> calculate_total_distance example_solver example_routes)"
  using improvement_never_increases_distance [OF example_ok example_in_range, of 100]
    example_ok example_in_range
  by simp

section \<open>C4\<close>



section \<open>C5\<close>

text \<open>
  C5. When a pass of \<open>improve_solution\<close> accepts a modification, the route it replaces is
  changed by one of the enumerated edge pairs, no enumerated pair of that route has a
  larger distance delta, the delta is at least the threshold 0.001 (the code asks for
  more than 0.001), and it is what the pass subtracts from the distance; a pass that
  accepts nothing leaves the routes as they were.
\<close>

theorem best_move_applied_above_threshold:
  "(improvement_found (improve_pass s st) \<longrightarrow>
      (\<exists>idx ij. idx < length (current_routes st)
         \<and> ij \<in> set (two_opt_pairs (length (current_routes st ! idx)))
         \<and> current_routes (improve_pass s st)
             = (current_routes st)[idx := reverse_segment (current_routes st ! idx) (fst ij) (snd ij)]
         \<and> current_distance (improve_pass s st)
             = current_distance st - two_opt_gain s (current_routes st ! idx) ij
         \<and> (\<forall>ij'\<in>set (two_opt_pairs (length (current_routes st ! idx))).
               two_opt_gain s (current_routes st ! idx) ij' \<le> two_opt_gain s (current_routes st ! idx) ij)
         \<and> 0.001 \<le> two_opt_gain s (current_routes st ! idx) ij))
   \<and> (\<not> improvement_found (improve_pass s st) \<longrightarrow>
         current_routes (improve_pass s st) = current_routes st)"
proof (intro conjI impI)
  assume "improvement_found (improve_pass s st)"
  then obtain m where Some: "first_improvement s (enumerate 0 (current_routes st)) = Some m"
    by (auto simp: improve_pass_found_iff)
  obtain idx r' imp where m: "m = (idx, r', imp)" by (cases m) auto
  let ?route = "current_routes st ! idx"
  from first_improvement_enumerate [OF Some [unfolded m]]
  have k: "idx < length (current_routes st)" and eq: "improve_route_2opt s ?route = (r', imp)"
    and imp: "imp > 0.001" by simp_all
  from eq imp have "snd (improve_route_2opt s ?route) > 0" by simp
  from improve_route_2opt_best [OF this] eq
  obtain ij where ij: "ij \<in> set (two_opt_pairs (length ?route))"
    and r': "r' = reverse_segment ?route (fst ij) (snd ij)" and g: "imp = two_opt_gain s ?route ij"
    and mx: "\<forall>ij'\<in>set (two_opt_pairs (length ?route)). two_opt_gain s ?route ij' \<le> two_opt_gain s ?route ij"
    by auto
  have "current_routes (improve_pass s st) = (current_routes st)[idx := r']"
    and "current_distance (improve_pass s st) = current_distance st - imp"
    using Some m by (simp_all add: improve_pass_def)
  then show "\<exists>idx ij. idx < length (current_routes st)
         \<and> ij \<in> set (two_opt_pairs (length (current_routes st ! idx)))
         \<and> current_routes (improve_pass s st)
             = (current_routes st)[idx := reverse_segment (current_routes st ! idx) (fst ij) (snd ij)]
         \<and> current_distance (improve_pass s st)
             = current_distance st - two_opt_gain s (current_routes st ! idx) ij
         \<and> (\<forall>ij'\<in>set (two_opt_pairs (length (current_routes st ! idx))).
               two_opt_gain s (current_routes st ! idx) ij' \<le> two_opt_gain s (current_routes st ! idx) ij)
         \<and> 0.001 \<le> two_opt_gain s (current_routes st ! idx) ij"
    using k ij r' g mx imp by (intro exI [of _ idx] exI [of _ ij]) simp
next
  assume "\<not> improvement_found (improve_pass s st)"
  then show "current_routes (improve_pass s st) = current_routes st"
    by (simp add: improve_pass_counters)
qed

theorem best_move_applied_above_threshold_witness:
  "improvement_found (improve_pass line_solver (initial_state line_solver [[0, 2, 3]]))
   \<and> (\<exists>idx ij. idx < length (current_routes (initial_state line_solver [[0, 2, 3]]))
         \<and> ij \<in> set (two_opt_pairs (length (current_routes (initial_state line_solver [[0, 2, 3]]) ! idx)))
         \<and> current_routes (improve_pass line_solver (initial_state line_solver [[0, 2, 3]]))
             = (current_routes (initial_state line_solver [[0, 2, 3]]))
                 [idx := reverse_segment (current_routes (initial_state line_solver [[0, 2, 3]]) ! idx) (fst ij) (snd ij)]
         \<and> current_distance (improve_pass line_solver (initial_state line_solver [[0, 2, 3]]))
             = current_distance (initial_state line_solver [[0, 2, 3]])
               - two_opt_gain line_solver (current_routes (initial_state line_solver [[0, 2, 3]]) ! idx) ij
         \<and> (\<forall>ij'\<in>set (two_opt_pairs (length (current_routes (initial_state line_solver [[0, 2, 3]]) ! idx))).
               two_opt_gain line_solver (current_routes (initial_state line_solver [[0, 2, 3]]) ! idx) ij'
               \<le> two_opt_gain line_solver (current_routes (initial_state line_solver [[0, 2, 3]]) ! idx) ij)
         \<and> 0.001 \<le> two_opt_gain line_solver (current_routes (initial_state line_solver [[0, 2, 3]]) ! idx) ij)"
proof -
  have f: "improvement_found (improve_pass line_solver (initial_state line_solver [[0, 2, 3]]))"
    by (simp add: line_pass)
  note w = best_move_applied_above_threshold
             [of line_solver "initial_state line_solver [[0, 2, 3]]", THEN conjunct1, THEN mp, OF f]
  show ?thesis using f w by (rule conjI)
qed

section \<open>C6\<close>

text \<open>
  C6. At every state the merging loop reaches and for every customer pair \<open>i < j\<close>: each
  customer lies in the route its dictionary entry names; a pair sharing a route is
  skipped; otherwise the two routes are merged (the route of \<open>i\<close> takes the customers of
  both, the route of \<open>j\<close> becomes empty, no other route changes) if and only if the
  combined demand of the two routes is at most the capacity and each of the two
  customers is the first or the last of its route; if not, nothing changes.
\<close>

theorem merge_iff_capacity_and_endpoints:
  assumes "savings_ok s" and "i < j" and "j < num_customers s"
  shows "\<exists>ri rj. customer_to_route (state_after s n) i = Some ri
           \<and> customer_to_route (state_after s n) j = Some rj
           \<and> i \<in> set (sv_routes (state_after s n) ! ri)
           \<and> j \<in> set (sv_routes (state_after s n) ! rj)
           \<and> (if ri \<noteq> rj
                 \<and> route_load s (sv_routes (state_after s n) ! ri)
                   + route_load s (sv_routes (state_after s n) ! rj) \<le> vehicle_capacity s
                 \<and> (hd (sv_routes (state_after s n) ! ri) = i \<or> last (sv_routes (state_after s n) ! ri) = i)
                 \<and> (hd (sv_routes (state_after s n) ! rj) = j \<or> last (sv_routes (state_after s n) ! rj) = j)
               then mset (sv_routes (process_pair s (state_after s n) i j) ! ri)
                      = mset (sv_routes (state_after s n) ! ri) + mset (sv_routes (state_after s n) ! rj)
                    \<and> sv_routes (process_pair s (state_after s n) i j) ! rj = []
                    \<and> (\<forall>r. r \<noteq> ri \<and> r \<noteq> rj \<longrightarrow>
                          sv_routes (process_pair s (state_after s n) i j) ! r
                            = sv_routes (state_after s n) ! r)
                    \<and> process_pair s (state_after s n) i j \<noteq> state_after s n
               else process_pair s (state_after s n) i j = state_after s n)"
proof -
  let ?st = "state_after s n"
  let ?N = "num_customers s"
  let ?R = "sv_routes ?st"
  have inv: "merge_inv s ?st" using assms(1) by (rule state_after_inv)
  then have len: "length ?R = ?N"
    and c2r: "\<forall>c<?N. \<exists>r<?N. customer_to_route ?st c = Some r \<and> c \<in> set (?R ! r)"
    and loads: "\<forall>r<?N. route_loads ?st ! r = route_load s (?R ! r)"
    by (simp_all add: merge_inv_def)
  have iN: "i < ?N" using assms(2,3) by simp
  from c2r iN obtain ri where ri: "ri < ?N" "customer_to_route ?st i = Some ri" "i \<in> set (?R ! ri)"
    by blast
  from c2r assms(3) obtain rj where rj: "rj < ?N" "customer_to_route ?st j = Some rj" "j \<in> set (?R ! rj)"
    by blast
  have nei: "?R ! ri \<noteq> []" and nej: "?R ! rj \<noteq> []" using ri(3) rj(3) by auto
  let ?elig = "route_load s (?R ! ri) + route_load s (?R ! rj) \<le> vehicle_capacity s
                 \<and> (hd (?R ! ri) = i \<or> last (?R ! ri) = i)
                 \<and> (hd (?R ! rj) = j \<or> last (?R ! rj) = j)"
  have cm: "can_merge_routes s (?R ! ri) (?R ! rj) (route_loads ?st ! ri) (route_loads ?st ! rj) i j
              \<longleftrightarrow> ?elig"
    using loads ri(1) rj(1) by (simp add: can_merge_routes_iff [OF nei nej])
  let ?m = "merge_routes s (?R ! ri) (?R ! rj) i j"
  define merges where "merges \<longleftrightarrow> ri \<noteq> rj \<and> ?elig"
  have pp: "process_pair s ?st i j = (if merges then merged_state s ?st i j else ?st)"
    unfolding process_pair_eq [OF ri(2) rj(2)] cm merges_def ..
  have ms: "sv_routes (merged_state s ?st i j) = ?R[ri := fst ?m, rj := []]"
    using ri(2) rj(2) by (simp add: merged_state_def Let_def)
  have body: "if merges
      then mset (sv_routes (process_pair s ?st i j) ! ri) = mset (?R ! ri) + mset (?R ! rj)
           \<and> sv_routes (process_pair s ?st i j) ! rj = []
           \<and> (\<forall>r. r \<noteq> ri \<and> r \<noteq> rj \<longrightarrow> sv_routes (process_pair s ?st i j) ! r = ?R ! r)
           \<and> process_pair s ?st i j \<noteq> ?st
      else process_pair s ?st i j = ?st"
  proof (cases merges)
    case True
    then have ne: "ri \<noteq> rj" by (simp add: merges_def)
    have p: "process_pair s ?st i j = merged_state s ?st i j" using True by (simp add: pp)
    have a: "sv_routes (process_pair s ?st i j) ! ri = fst ?m"
      using ne ri(1) len by (simp add: p ms)
    have b: "sv_routes (process_pair s ?st i j) ! rj = []"
      using rj(1) len by (simp add: p ms)
    have c: "\<forall>r. r \<noteq> ri \<and> r \<noteq> rj \<longrightarrow> sv_routes (process_pair s ?st i j) ! r = ?R ! r"
      by (simp add: p ms)
    have d: "process_pair s ?st i j \<noteq> ?st"
      using b nej by auto
    show ?thesis using True a b c d by (simp add: mset_merge_routes)
  next
    case False
    then show ?thesis by (simp add: pp)
  qed
  show ?thesis
    using ri(2,3) rj(2,3) body [unfolded merges_def]
    by (intro exI [of _ ri] exI [of _ rj] conjI)
qed

theorem merge_iff_capacity_and_endpoints_witness:
  "savings_ok axis_savings \<and> (0::nat) < 1 \<and> 1 < num_customers axis_savings
   \<and> sv_routes (process_pair axis_savings (state_after axis_savings 0) 0 1) = [[0, 1], []]"
proof -
  let ?st = "state_after axis_savings 0"
  have n: "(1::nat) < num_customers axis_savings" by (simp add: axis_savings_fields)
  from merge_iff_capacity_and_endpoints [OF axis_savings_ok _ n, of 0 0]
  obtain ri rj where ri: "customer_to_route ?st 0 = Some ri" and rj: "customer_to_route ?st 1 = Some rj"
    and b: "if ri \<noteq> rj
                 \<and> route_load axis_savings (sv_routes ?st ! ri)
                   + route_load axis_savings (sv_routes ?st ! rj) \<le> vehicle_capacity axis_savings
                 \<and> (hd (sv_routes ?st ! ri) = 0 \<or> last (sv_routes ?st ! ri) = 0)
                 \<and> (hd (sv_routes ?st ! rj) = 1 \<or> last (sv_routes ?st ! rj) = 1)
               then mset (sv_routes (process_pair axis_savings ?st 0 1) ! ri)
                      = mset (sv_routes ?st ! ri) + mset (sv_routes ?st ! rj)
                    \<and> sv_routes (process_pair axis_savings ?st 0 1) ! rj = []
                    \<and> (\<forall>r. r \<noteq> ri \<and> r \<noteq> rj \<longrightarrow>
                          sv_routes (process_pair axis_savings ?st 0 1) ! r = sv_routes ?st ! r)
                    \<and> process_pair axis_savings ?st 0 1 \<noteq> ?st
               else process_pair axis_savings ?st 0 1 = ?st"
    by auto
  from ri rj have r: "ri = 0" "rj = 1" by (simp_all add: axis_state_after_0)
  have "process_pair axis_savings ?st 0 1 \<noteq> ?st"
    using b by (simp add: r axis_state_after_0 route_load_def axis_savings_fields)
  moreover have "sv_routes (process_pair axis_savings ?st 0 1) = [[0, 1], []] \<or> process_pair axis_savings ?st 0 1 = ?st"
    by (simp add: process_pair_def axis_state_after_0 Let_def merge_routes_def)
  ultimately show ?thesis using axis_savings_ok n by simp
qed

section \<open>C7\<close>

text \<open>
  C7. The savings list holds exactly one entry for each pair \<open>i < j\<close> of customers, with
  the value \<open>dist(depot, i) + dist(depot, j) - dist(i, j)\<close>, and no other entry; it is
  sorted by descending savings; and the merging loop processes exactly the entries before
  the first one whose savings is not positive, so that no entry with savings \<open>\<le> 0\<close> is
  ever merged.
\<close>

theorem savings_list_complete_sorted_and_cut_at_zero:
  assumes "savings_ok s" and "i < j" and "j < num_customers s"
  shows "filter (\<lambda>e. fst e = i \<and> fst (snd e) = j) (savings_list s)
           = [(i, j, euclidean_distance (depot s) (customers s ! i)
                     + euclidean_distance (depot s) (customers s ! j)
                     - euclidean_distance (customers s ! i) (customers s ! j))]
       \<and> list_all (\<lambda>e. fst e < fst (snd e) \<and> fst (snd e) < num_customers s) (savings_list s)
       \<and> sorted_wrt (\<lambda>a b. snd (snd b) \<le> snd (snd a)) (savings_list s)
       \<and> merge_loop s st (savings_list s)
           = foldl (\<lambda>st e. process_pair s st (fst e) (fst (snd e))) st
               (takeWhile (\<lambda>e. 0 < snd (snd e)) (savings_list s))
       \<and> routes (savings_solve s)
           = apply_vehicle_limit s (filter (\<lambda>route. route \<noteq> [])
               (sv_routes (foldl (\<lambda>st e. process_pair s st (fst e) (fst (snd e)))
                  (initial_merge_state s) (takeWhile (\<lambda>e. 0 < snd (snd e)) (savings_list s)))))"
proof -
  from assms(1) have ok: "instance_ok s" and sl: "savings_list s = calculate_savings s"
    by (simp_all add: savings_ok_def)
  have "filter (\<lambda>e. fst e = i \<and> fst (snd e) = j) (savings_list s) = [(i, j, savings_value s i j)]"
    unfolding sl using assms(2,3) by (rule savings_entry_unique)
  then have a: "filter (\<lambda>e. fst e = i \<and> fst (snd e) = j) (savings_list s)
           = [(i, j, euclidean_distance (depot s) (customers s ! i)
                     + euclidean_distance (depot s) (customers s ! j)
                     - euclidean_distance (customers s ! i) (customers s ! j))]"
    by (simp add: savings_value_euclidean [OF ok assms(2,3)])
  have b: "list_all (\<lambda>e. fst e < fst (snd e) \<and> fst (snd e) < num_customers s) (savings_list s)"
    unfolding sl list_all_iff using savings_entries_valid [of s] by blast
  have c: "sorted_wrt (\<lambda>a b. snd (snd b) \<le> snd (snd a)) (savings_list s)"
    unfolding sl by (rule savings_sorted_descending)
  have d: "merge_loop s st (savings_list s)
           = foldl (\<lambda>st e. process_pair s st (fst e) (fst (snd e))) st
               (takeWhile (\<lambda>e. 0 < snd (snd e)) (savings_list s))" for st
    by (rule merge_loop_takeWhile)
  have e: "routes (savings_solve s)
           = apply_vehicle_limit s (filter (\<lambda>route. route \<noteq> [])
               (sv_routes (foldl (\<lambda>st e. process_pair s st (fst e) (fst (snd e)))
                  (initial_merge_state s) (takeWhile (\<lambda>e. 0 < snd (snd e)) (savings_list s)))))"
    by (simp add: savings_solve_def Let_def d)
  from a b c d e show ?thesis by simp
qed

theorem savings_list_complete_sorted_and_cut_at_zero_witness:
  "savings_ok example_savings \<and> (0::nat) < 1 \<and> 1 < num_customers example_savings
   \<and> filter (\<lambda>e. fst e = 0 \<and> fst (snd e) = 1) (savings_list example_savings)
       = [(0, 1, euclidean_distance (depot example_savings) (customers example_savings ! 0)
                 + euclidean_distance (depot example_savings) (customers example_savings ! 1)
                 - euclidean_distance (customers example_savings ! 0) (customers example_savings ! 1))]
   \<and> list_all (\<lambda>e. fst e < fst (snd e) \<and> fst (snd e) < num_customers example_savings)
       (savings_list example_savings)
   \<and> sorted_wrt (\<lambda>a b. snd (snd b) \<le> snd (snd a)) (savings_list example_savings)
   \<and> merge_loop example_savings (initial_merge_state example_savings) (savings_list example_savings)
       = foldl (\<lambda>st e. process_pair example_savings st (fst e) (fst (snd e)))
           (initial_merge_state example_savings)
           (takeWhile (\<lambda>e. 0 < snd (snd e)) (savings_list example_savings))"
proof -
  have n: "(1::nat) < num_customers example_savings" by (simp add: example_savings_size)
  have z: "(0::nat) < 1" by simp
  from savings_list_complete_sorted_and_cut_at_zero
         [OF example_savings_ok z n, of "initial_merge_state example_savings"]
  show ?thesis using example_savings_ok n by simp
qed

section \<open>C8\<close>

text \<open>
  C8 (as the code has it). Both loops terminate on every input. With a positive budget
  they run passes until the first pass that accepts no move and stop there: one pass
  without improvement ends the loop, whatever \<open>max_iterations\<close> is. With a budget of zero
  or less they run no pass. \<open>improvement_iterations\<close> is the number of passes run.
\<close>

theorem loops_stop_at_first_pass_without_improvement:
  assumes "instance_ok s" and "routes_in_range s rs"
  shows "(\<exists>k. improve_solution s rs m = Inr (result_of s ((improve_pass s ^^ k) (initial_state s rs)))
            \<and> improvement_iterations (result_of s ((improve_pass s ^^ k) (initial_state s rs))) = int k
            \<and> (if m \<le> 0 then k = 0 else runs_until_no_improvement (improve_pass s) (initial_state s rs) k))
       \<and> (\<exists>k. inter_route_2opt s rs m = Inr (result_of s ((inter_pass s ^^ k) (initial_state s rs)))
            \<and> improvement_iterations (result_of s ((inter_pass s ^^ k) (initial_state s rs))) = int k
            \<and> (if m \<le> 0 then k = 0 else runs_until_no_improvement (inter_pass s) (initial_state s rs) k))"
proof (cases "0 < m")
  case True
  have i: "improvement_found (initial_state s rs)" "iterations_without_improvement (initial_state s rs) = 0"
    and z: "total_iterations (initial_state s rs) = 0"
    by (simp_all add: initial_state_def)
  from improve_loop_passes [OF True i, of s] z
  obtain k where "improve_loop s m (initial_state s rs) = (improve_pass s ^^ k) (initial_state s rs)"
    and "runs_until_no_improvement (improve_pass s) (initial_state s rs) k"
    and "total_iterations ((improve_pass s ^^ k) (initial_state s rs)) = int k"
    by auto
  then have a: "\<exists>k. improve_solution s rs m = Inr (result_of s ((improve_pass s ^^ k) (initial_state s rs)))
            \<and> improvement_iterations (result_of s ((improve_pass s ^^ k) (initial_state s rs))) = int k
            \<and> (if m \<le> 0 then k = 0 else runs_until_no_improvement (improve_pass s) (initial_state s rs) k)"
    using True assms(2) by (intro exI [of _ k]) (simp add: improve_solution_def result_of_def)
  from inter_loop_passes [OF True i, of s] z
  obtain k where "inter_loop s m (initial_state s rs) = (inter_pass s ^^ k) (initial_state s rs)"
    and "runs_until_no_improvement (inter_pass s) (initial_state s rs) k"
    and "total_iterations ((inter_pass s ^^ k) (initial_state s rs)) = int k"
    by auto
  then have b: "\<exists>k. inter_route_2opt s rs m = Inr (result_of s ((inter_pass s ^^ k) (initial_state s rs)))
            \<and> improvement_iterations (result_of s ((inter_pass s ^^ k) (initial_state s rs))) = int k
            \<and> (if m \<le> 0 then k = 0 else runs_until_no_improvement (inter_pass s) (initial_state s rs) k)"
    using True assms(2) by (intro exI [of _ k]) (simp add: inter_route_2opt_def result_of_def)
  from a b show ?thesis by (rule conjI)
next
  case False
  then have "improve_loop s m (initial_state s rs) = initial_state s rs"
    and "inter_loop s m (initial_state s rs) = initial_state s rs"
    by (simp_all add: improve_loop_stop inter_loop_stop initial_state_def)
  then show ?thesis
    using False assms(2)
    by (intro conjI exI [of _ 0])
       (simp_all add: improve_solution_def inter_route_2opt_def result_of_def initial_state_def)
qed

theorem loops_stop_at_first_pass_without_improvement_witness:
  "instance_ok example_solver \<and> routes_in_range example_solver example_routes
   \<and> (\<exists>k. improve_solution example_solver example_routes 100
             = Inr (result_of example_solver ((improve_pass example_solver ^^ k) (initial_state example_solver example_routes)))
         \<and> improvement_iterations (result_of example_solver ((improve_pass example_solver ^^ k) (initial_state example_solver example_routes))) = int k
         \<and> runs_until_no_improvement (improve_pass example_solver) (initial_state example_solver example_routes) k)
   \<and> (\<exists>k. inter_route_2opt example_solver example_routes 100
             = Inr (result_of example_solver ((inter_pass example_solver ^^ k) (initial_state example_solver example_routes)))
         \<and> improvement_iterations (result_of example_solver ((inter_pass example_solver ^^ k) (initial_state example_solver example_routes))) = int k
         \<and> runs_until_no_improvement (inter_pass example_solver) (initial_state example_solver example_routes) k)"
  using loops_stop_at_first_pass_without_improvement [OF example_ok example_in_range, of 100]
    example_ok example_in_range
  by simp

text \<open>
  The claim as written fails: with a budget of 100 and a single one-customer route (the
  third route of the source's example), each loop stops after one pass without
  improvement, at \<open>iterations_without_improvement = 1\<close>.
\<close>

theorem one_pass_without_improvement_ends_the_loops:
  "improve_solution example_solver [[5]] 100
     = Inr (result_of example_solver (improve_loop example_solver 100 (initial_state example_solver [[5]])))
   \<and> total_iterations (improve_loop example_solver 100 (initial_state example_solver [[5]])) = 1
   \<and> iterations_without_improvement (improve_loop example_solver 100 (initial_state example_solver [[5]])) = 1
   \<and> inter_route_2opt example_solver [[5]] 100
     = Inr (result_of example_solver (inter_loop example_solver 100 (initial_state example_solver [[5]])))
   \<and> total_iterations (inter_loop example_solver 100 (initial_state example_solver [[5]])) = 1
   \<and> iterations_without_improvement (inter_loop example_solver 100 (initial_state example_solver [[5]])) = 1"
proof -
  let ?st = "initial_state example_solver [[5]]"
  have c: "improvement_found ?st \<and> iterations_without_improvement ?st < 100"
    by (simp add: initial_state_def)
  have p: "improve_pass example_solver ?st
             = ?st\<lparr>improvement_found := False, iterations_without_improvement := 1, total_iterations := 1\<rparr>"
    by (simp add: improve_pass_def initial_state_def enumerate_eq_zip)
  have q: "inter_pass example_solver ?st
             = ?st\<lparr>improvement_found := False, iterations_without_improvement := 1, total_iterations := 1\<rparr>"
    by (simp add: inter_pass_def first_swap_def swap_candidates_def initial_state_def)
  have "improve_loop example_solver 100 ?st
          = ?st\<lparr>improvement_found := False, iterations_without_improvement := 1, total_iterations := 1\<rparr>"
    by (simp add: improve_loop_continue [OF c] p improve_loop_stop)
  moreover have "inter_loop example_solver 100 ?st
          = ?st\<lparr>improvement_found := False, iterations_without_improvement := 1, total_iterations := 1\<rparr>"
    by (simp add: inter_loop_continue [OF c] q inter_loop_stop)
  moreover have "routes_in_range example_solver [[5]]"
    by (simp add: example_solver_def routes_in_range_def TwoOptVRP_init_def)
  ultimately show ?thesis
    by (simp add: improve_solution_def inter_route_2opt_def)
qed

section \<open>C9\<close>

text \<open>
  C9. For every store and every list of routes a caller passes (by reference) to
  \<open>improve_solution\<close> or \<open>inter_route_2opt\<close>, the call returns, and it leaves every object
  that existed before the call as it was: the caller's list and every route in it are
  unchanged. All it writes to are objects it has made itself, starting from the deep
  copy; the routes it returns are in a new list, and they are the routes of the
  value-level model.
\<close>

theorem caller_routes_unchanged:
  assumes "instance_ok s" and "list_of_routes h a"
  shows "(\<exists>h' r. improve_solution_h s h a m = Some (h', r)
           \<and> take (length h) h' = h
           \<and> deref_routes h' a = deref_routes h a
           \<and> (case r of
                 Inl e \<Rightarrow> improve_solution s (deref_routes h a) m = Inl e
               | Inr (ref, sol) \<Rightarrow>
                   improve_solution s (deref_routes h a) m = Inr sol
                   \<and> length h \<le> ref \<and> deref_routes h' ref = routes sol))
       \<and> (\<exists>h' r. inter_route_2opt_h s h a m = Some (h', r)
           \<and> take (length h) h' = h
           \<and> deref_routes h' a = deref_routes h a
           \<and> (case r of
                 Inl e \<Rightarrow> inter_route_2opt s (deref_routes h a) m = Inl e
               | Inr (ref, sol) \<Rightarrow>
                   inter_route_2opt s (deref_routes h a) m = Inr sol
                   \<and> length h \<le> ref \<and> deref_routes h' ref = routes sol))"
  using improve_solution_h_frame [OF assms(2)] inter_route_2opt_h_frame [OF assms(2)]
  by (rule conjI)

theorem caller_routes_unchanged_witness:
  "instance_ok example_solver \<and> list_of_routes example_store 3
   \<and> deref_routes example_store 3 = example_routes
   \<and> (\<exists>h' r. improve_solution_h example_solver example_store 3 100 = Some (h', r)
         \<and> take (length example_store) h' = example_store
         \<and> deref_routes h' 3 = deref_routes example_store 3)
   \<and> (\<exists>h' r. inter_route_2opt_h example_solver example_store 3 100 = Some (h', r)
         \<and> take (length example_store) h' = example_store
         \<and> deref_routes h' 3 = deref_routes example_store 3)"
proof -
  have d: "deref_routes example_store 3 = example_routes"
    by (simp add: example_store_def example_routes_def deref_routes_def refs_at_def ints_at_def)
  from caller_routes_unchanged [OF example_ok example_store_ok, of 100]
  show ?thesis using example_ok example_store_ok d by blast
qed

section \<open>C10\<close>

text \<open>
  C10. The \<open>total_distance\<close> both operations return, kept up to date by subtracting each
  applied move's improvement, equals the sum of the route distances recomputed from the
  routes returned (in exact real arithmetic).
\<close>

theorem returned_distance_is_recomputed_distance:
  assumes "instance_ok s" and "routes_in_range s initial_routes"
  shows "(\<exists>sol. improve_solution s initial_routes max_iterations = Inr sol
            \<and> total_distance sol = calculate_total_distance s (routes sol))
       \<and> (\<exists>sol. inter_route_2opt s initial_routes max_iterations = Inr sol
            \<and> total_distance sol = calculate_total_distance s (routes sol))"
proof -
  have "distance_tracked s (initial_state s initial_routes)"
    by (simp add: distance_tracked_def initial_state_def)
  then have "distance_tracked s (improve_loop s max_iterations (initial_state s initial_routes))"
    and "distance_tracked s (inter_loop s max_iterations (initial_state s initial_routes))"
    by (rule improve_loop_tracked, rule inter_loop_tracked)
  then show ?thesis
    using assms(2)
    by (simp add: improve_solution_def inter_route_2opt_def result_of_def distance_tracked_def)
qed

theorem returned_distance_is_recomputed_distance_witness:
  "instance_ok example_solver \<and> routes_in_range example_solver example_routes
   \<and> (\<exists>sol. improve_solution example_solver example_routes 100 = Inr sol
         \<and> total_distance sol = calculate_total_distance example_solver (routes sol))
   \<and> (\<exists>sol. inter_route_2opt example_solver example_routes 100 = Inr sol
         \<and> total_distance sol = calculate_total_distance example_solver (routes sol))"
  using returned_distance_is_recomputed_distance [OF example_ok example_in_range, of 100]
    example_ok example_in_range
  by simp

end
